theory Spec2Isabelle
  imports Main "HOL-Library.Word"
begin

section \<open>The parallel matching engine of vf3-parallel\<close>

text \<open>
  The development embeds \<^verbatim>\<open>include/parallel/ParallelMatchingEngine.hpp\<close>:
  the class \<^verbatim>\<open>ParallelMatchingEngine<VFState>\<close> with its global state stack,
  its pool of worker threads and its solution counter.

  The engine is generic in \<^verbatim>\<open>VFState\<close>. The template argument, the node
  identifier type \<^verbatim>\<open>nodeID_t\<close>, the constant \<^verbatim>\<open>NULL_NODE\<close> and the visitor
  class are declared in headers that are not part of the engine's file; they are taken
  as parameters here.
\<close>

subsection \<open>The state contract\<close>

text \<open>
  The operations the engine calls on a \<^verbatim>\<open>VFState\<close>. \<^verbatim>\<open>NextPair(&n1, &n2, n1, n2)\<close>
  receives the previous pair and either stores the next candidate pair and returns true
  (\<open>Some\<close>) or returns false (\<open>None\<close>). \<^verbatim>\<open>new VFState(*s)\<close> followed by
  \<^verbatim>\<open>AddPair\<close> on the copy is the function \<open>AddPair\<close> on values.
\<close>

record ('s, 'n, 'sol) VFState =
  IsGoal :: "'s \<Rightarrow> bool"
  IsDead :: "'s \<Rightarrow> bool"
  NextPair :: "'s \<Rightarrow> 'n \<Rightarrow> 'n \<Rightarrow> ('n \<times> 'n) option"
  IsFeasiblePair :: "'s \<Rightarrow> 'n \<Rightarrow> 'n \<Rightarrow> bool"
  AddPair :: "'s \<Rightarrow> 'n \<Rightarrow> 'n \<Rightarrow> 's"
  GetCoreSet :: "'s \<Rightarrow> 'sol"
  NULL_NODE :: "'n"

subsection \<open>Program points\<close>

text \<open>
  A state pointer \<^verbatim>\<open>VFState*\<close> is a handle: the number of the allocation it came
  from. The program points of \<^verbatim>\<open>ProcessState(s)\<close> (lines 108 to 143):
\<close>

datatype 'n ppc =
    P_Entry                 \<comment> \<open>line 110, before \<^verbatim>\<open>s->IsGoal()\<close>\<close>
  | P_Store                 \<comment> \<open>line 114, after \<^verbatim>\<open>solCount++\<close>\<close>
  | P_Visit                 \<comment> \<open>line 121, before \<^verbatim>\<open>if (visit)\<close>\<close>
  | P_Loop 'n 'n            \<comment> \<open>line 132, before \<^verbatim>\<open>NextPair\<close>, with \<^verbatim>\<open>n1\<close>, \<^verbatim>\<open>n2\<close>\<close>
  | P_Put nat 'n 'n         \<comment> \<open>line 138, before \<^verbatim>\<open>PutState(s1)\<close>, with \<^verbatim>\<open>s1\<close>, \<^verbatim>\<open>n1\<close>, \<^verbatim>\<open>n2\<close>\<close>
  | P_Return bool           \<comment> \<open>the function has returned this value\<close>

text \<open>The program points of a worker thread, \<^verbatim>\<open>Run\<close> (lines 93 to 106):\<close>

datatype 'n wpc =
    W_NoThread              \<comment> \<open>a default-constructed \<^verbatim>\<open>std::thread\<close>; not joinable\<close>
  | W_GetState              \<comment> \<open>line 104, before \<^verbatim>\<open>GetState()\<close>\<close>
  | W_Locked nat            \<comment> \<open>line 160, inside \<^verbatim>\<open>GetState\<close>, holding the lock, \<^verbatim>\<open>res\<close> popped\<close>
  | W_While "nat option"    \<comment> \<open>line 105, before the loop condition, with \<^verbatim>\<open>s\<close>\<close>
  | W_Process nat "'n ppc"  \<comment> \<open>line 100, inside \<^verbatim>\<open>ProcessState(s)\<close>\<close>
  | W_Delete nat            \<comment> \<open>line 101, before \<^verbatim>\<open>delete s\<close>\<close>
  | W_Dec nat               \<comment> \<open>line 102, before \<^verbatim>\<open>activeWorkerCount--\<close>\<close>
  | W_Exit                  \<comment> \<open>\<^verbatim>\<open>Run\<close> has returned\<close>

subsection \<open>The engine\<close>

text \<open>
  The data members of the class (lines 39 to 48) and the ones it uses from
  \<^verbatim>\<open>MatchingEngine\<close> (\<^verbatim>\<open>solutions\<close>, \<^verbatim>\<open>visit\<close>, \<^verbatim>\<open>storeSolutions\<close>), together with
  the free store: \<open>heap\<close> maps the handles of the live states to their values and
  \<open>next_handle\<close> numbers the allocations. A visitor is an object; its call takes the
  visitor's own state and the matching state and gives the boolean and the new visitor
  state.
\<close>

record ('s, 'n, 'sol, 'v) engine =
  heap :: "nat \<rightharpoonup> 's"
  next_handle :: nat
  solutions :: "'sol list"
  visit :: "('v \<Rightarrow> 's \<Rightarrow> bool \<times> 'v) option"
  visit_state :: 'v
  storeSolutions :: bool
  statesMutex :: "nat option"
  solCount :: "32 word"
  cpu :: "16 word"
  numThreads :: "16 word"
  pool :: "'n wpc list"
  activeWorkerCount :: "16 word"
  globalStateStack :: "nat list"

datatype error =
    DanglingState        \<comment> \<open>a destroyed state is read or destroyed again\<close>
  | PoolIndexOutOfRange  \<comment> \<open>\<^verbatim>\<open>pool[i]\<close> with \<^verbatim>\<open>i >= pool.size()\<close>\<close>

text \<open>What a step does, for the record of an execution.\<close>

datatype 'sol action =
    Tau                  \<comment> \<open>a step on the thread's own data\<close>
  | Idle                 \<comment> \<open>no step: there is no such thread, or it has finished\<close>
  | Blocked              \<comment> \<open>no step: waiting for \<^verbatim>\<open>statesMutex\<close>\<close>
  | Pop nat | PopEmpty | Inc | Spin | Exit
  | Count nat | Store nat 'sol | Visit nat bool
  | Alloc nat nat | Push nat | Return nat bool
  | Delete nat | Dec nat

text \<open>
  The constructor (lines 51 to 60). The parameter is an \<^verbatim>\<open>unsigned short\<close>; the member
  \<^verbatim>\<open>numThreads\<close> is an \<^verbatim>\<open>int16_t\<close> with the same sixteen bits, and \<^verbatim>\<open>pool\<close> is
  sized from the parameter.
\<close>

definition ParallelMatchingEngine ::
  "16 word \<Rightarrow> bool \<Rightarrow> 16 word \<Rightarrow> ('v \<Rightarrow> 's \<Rightarrow> bool \<times> 'v) option \<Rightarrow> 'v
     \<Rightarrow> (nat \<rightharpoonup> 's) \<Rightarrow> nat \<Rightarrow> ('s, 'n, 'sol, 'v) engine" where
  "ParallelMatchingEngine n store c v vs hp nh =
     \<lparr> heap = hp, next_handle = nh, solutions = [], visit = v, visit_state = vs,
       storeSolutions = store, statesMutex = None, solCount = 0, cpu = c,
       numThreads = n, pool = replicate (unat n) W_NoThread,
       activeWorkerCount = 0, globalStateStack = [] \<rparr>"

definition GetSolutionsCount :: "('s, 'n, 'sol, 'v) engine \<Rightarrow> 64 word" where
  "GetSolutionsCount e = ucast (solCount e)"


subsection \<open>ProcessState, one step at a time\<close>

text \<open>
  \<open>pstep c s pc e\<close> runs \<^verbatim>\<open>ProcessState(s)\<close> from program point \<open>pc\<close> to the next
  one. A step contains at most one access to data shared between threads.
\<close>

fun pstep :: "('s, 'n, 'sol) VFState \<Rightarrow> nat \<Rightarrow> 'n ppc \<Rightarrow> ('s, 'n, 'sol, 'v) engine
    \<Rightarrow> error + ('sol action \<times> 'n ppc \<times> ('s, 'n, 'sol, 'v) engine)" where
  "pstep c s P_Entry e =
     (case heap e s of None \<Rightarrow> Inl DanglingState
      | Some st \<Rightarrow>
          if IsGoal c st then Inr (Count s, P_Store, e\<lparr>solCount := solCount e + 1\<rparr>)
          else if IsDead c st then Inr (Tau, P_Return False, e)
          else Inr (Tau, P_Loop (NULL_NODE c) (NULL_NODE c), e))"
| "pstep c s P_Store e =
     (if storeSolutions e then
        (case heap e s of None \<Rightarrow> Inl DanglingState
         | Some st \<Rightarrow> Inr (Store s (GetCoreSet c st), P_Visit,
                          e\<lparr>solutions := solutions e @ [GetCoreSet c st]\<rparr>))
      else Inr (Tau, P_Visit, e))"
| "pstep c s P_Visit e =
     (case visit e of None \<Rightarrow> Inr (Tau, P_Return True, e)
      | Some v \<Rightarrow>
          (case heap e s of None \<Rightarrow> Inl DanglingState
           | Some st \<Rightarrow> Inr (Visit s (fst (v (visit_state e) st)),
                            P_Return (fst (v (visit_state e) st)),
                            e\<lparr>visit_state := snd (v (visit_state e) st)\<rparr>)))"
| "pstep c s (P_Loop n1 n2) e =
     (case heap e s of None \<Rightarrow> Inl DanglingState
      | Some st \<Rightarrow>
          (case NextPair c st n1 n2 of None \<Rightarrow> Inr (Tau, P_Return False, e)
           | Some (m1, m2) \<Rightarrow>
               if IsFeasiblePair c st m1 m2 then
                 Inr (Alloc s (next_handle e), P_Put (next_handle e) m1 m2,
                      e\<lparr>heap := (heap e)(next_handle e \<mapsto> AddPair c st m1 m2),
                        next_handle := Suc (next_handle e)\<rparr>)
               else Inr (Tau, P_Loop m1 m2, e)))"
| "pstep c s (P_Put s1 n1 n2) e =
     Inr (Push s1, P_Loop n1 n2, e\<lparr>globalStateStack := s1 # globalStateStack e\<rparr>)"
| "pstep c s (P_Return r) e = Inr (Tau, P_Return r, e)"

text \<open>
  \<^verbatim>\<open>ProcessState(s)\<close> called on a thread that runs alone, as \<^verbatim>\<open>FindAllMatchings\<close>
  calls it on the root: the steps from \<open>pc\<close> until the function returns, with the
  actions taken. \<open>None\<close> is a call that never returns.
\<close>

partial_function (option) ProcessState_from ::
  "('s, 'n, 'sol) VFState \<Rightarrow> nat \<Rightarrow> 'n ppc \<Rightarrow> 'sol action list \<Rightarrow> ('s, 'n, 'sol, 'v) engine
    \<Rightarrow> (error + (bool \<times> 'sol action list \<times> ('s, 'n, 'sol, 'v) engine)) option" where
  "ProcessState_from c s pc acts e =
     (case pc of
        P_Return r \<Rightarrow> Some (Inr (r, acts, e))
      | _ \<Rightarrow>
          (case pstep c s pc e of
             Inl err \<Rightarrow> Some (Inl err)
           | Inr (a, pc', e') \<Rightarrow> ProcessState_from c s pc' (acts @ [a]) e'))"

declare ProcessState_from.simps [code]

definition ProcessState ::
  "('s, 'n, 'sol) VFState \<Rightarrow> nat \<Rightarrow> ('s, 'n, 'sol, 'v) engine
    \<Rightarrow> (error + (bool \<times> 'sol action list \<times> ('s, 'n, 'sol, 'v) engine)) option" where
  "ProcessState c s e = ProcessState_from c s P_Entry [] e"

subsection \<open>The worker loop, one step at a time\<close>

text \<open>
  \<open>wstep_pc c t pc e\<close> is one step of worker \<open>t\<close> at program point \<open>pc\<close> of
  \<^verbatim>\<open>Run\<close>. \<^verbatim>\<open>GetState\<close> (lines 152 to 163) takes \<^verbatim>\<open>statesMutex\<close>, pops, and,
  still holding the lock, increments \<^verbatim>\<open>activeWorkerCount\<close>: the increment is a step of
  its own, since the loop condition of the other workers reads the counter without the
  lock. \<^verbatim>\<open>PutState\<close> (lines 145 to 148) takes the same lock.
\<close>

fun wstep_pc :: "('s, 'n, 'sol) VFState \<Rightarrow> nat \<Rightarrow> 'n wpc \<Rightarrow> ('s, 'n, 'sol, 'v) engine
    \<Rightarrow> error + ('sol action \<times> 'n wpc \<times> ('s, 'n, 'sol, 'v) engine)" where
  "wstep_pc c t W_NoThread e = Inr (Idle, W_NoThread, e)"
| "wstep_pc c t W_GetState e =
     (case statesMutex e of Some u \<Rightarrow> Inr (Blocked, W_GetState, e)
      | None \<Rightarrow>
          (case globalStateStack e of [] \<Rightarrow> Inr (PopEmpty, W_While None, e)
           | res # rest \<Rightarrow>
               Inr (Pop res, W_Locked res,
                    e\<lparr>globalStateStack := rest, statesMutex := Some t\<rparr>)))"
| "wstep_pc c t (W_Locked res) e =
     Inr (Inc, W_While (Some res),
          e\<lparr>activeWorkerCount := activeWorkerCount e + 1, statesMutex := None\<rparr>)"
| "wstep_pc c t (W_While (Some s)) e = Inr (Tau, W_Process s P_Entry, e)"
| "wstep_pc c t (W_While None) e =
     (if 0 <s activeWorkerCount e then Inr (Spin, W_GetState, e) else Inr (Exit, W_Exit, e))"
| "wstep_pc c t (W_Process s (P_Return r)) e = Inr (Return s r, W_Delete s, e)"
| "wstep_pc c t (W_Process s (P_Put s1 n1 n2)) e =
     (case statesMutex e of Some u \<Rightarrow> Inr (Blocked, W_Process s (P_Put s1 n1 n2), e)
      | None \<Rightarrow>
          (case pstep c s (P_Put s1 n1 n2) e of Inl err \<Rightarrow> Inl err
           | Inr (a, pc', e') \<Rightarrow> Inr (a, W_Process s pc', e')))"
| "wstep_pc c t (W_Process s pc) e =
     (case pstep c s pc e of Inl err \<Rightarrow> Inl err
      | Inr (a, pc', e') \<Rightarrow> Inr (a, W_Process s pc', e'))"
| "wstep_pc c t (W_Delete s) e =
     (case heap e s of None \<Rightarrow> Inl DanglingState
      | Some st \<Rightarrow> Inr (Delete s, W_Dec s, e\<lparr>heap := (heap e)(s := None)\<rparr>))"
| "wstep_pc c t (W_Dec s) e =
     Inr (Dec s, W_GetState, e\<lparr>activeWorkerCount := activeWorkerCount e - 1\<rparr>)"
| "wstep_pc c t W_Exit e = Inr (Idle, W_Exit, e)"

definition wstep :: "('s, 'n, 'sol) VFState \<Rightarrow> nat \<Rightarrow> ('s, 'n, 'sol, 'v) engine
    \<Rightarrow> error + ('sol action \<times> ('s, 'n, 'sol, 'v) engine)" where
  "wstep c t e =
     (if t < length (pool e) then
        (case wstep_pc c t (pool e ! t) e of Inl err \<Rightarrow> Inl err
         | Inr (a, pc', e') \<Rightarrow> Inr (a, e'\<lparr>pool := (pool e')[t := pc']\<rparr>))
      else Inr (Idle, e))"

text \<open>
  An execution of the workers: the threads named by the schedule take one step each, in
  that order. The result is the record of the actions, each with its thread, and the
  engine reached.
\<close>

fun exec :: "('s, 'n, 'sol) VFState \<Rightarrow> nat list \<Rightarrow> ('s, 'n, 'sol, 'v) engine
    \<Rightarrow> error + ((nat \<times> 'sol action) list \<times> ('s, 'n, 'sol, 'v) engine)" where
  "exec c [] e = Inr ([], e)"
| "exec c (t # ts) e =
     (case wstep c t e of Inl err \<Rightarrow> Inl err
      | Inr (a, e') \<Rightarrow>
          (case exec c ts e' of Inl err \<Rightarrow> Inl err
           | Inr (tr, e'') \<Rightarrow> Inr ((t, a) # tr, e'')))"

subsection \<open>StartPool and FindAllMatchings\<close>

text \<open>
  \<^verbatim>\<open>StartPool\<close> (lines 179 to 195): the loop variable is a \<^verbatim>\<open>size_t\<close> (64 bits) and
  \<^verbatim>\<open>numThreads\<close> is converted to it with sign extension. A new thread starts at the
  top of \<^verbatim>\<open>Run\<close> with \<^verbatim>\<open>s = NULL\<close>, so its first action is \<^verbatim>\<open>GetState()\<close>.
  \<^verbatim>\<open>SetAffinity\<close> decides where a thread runs, not what it does. A worker that the
  schedule lets run only after all are spawned behaves as one that was spawned early
  and waited.
\<close>

function StartPool_from :: "nat \<Rightarrow> ('s, 'n, 'sol, 'v) engine \<Rightarrow> error + ('s, 'n, 'sol, 'v) engine" where
  "StartPool_from i e =
     (if i < unat (scast (numThreads e) :: 64 word) then
        (if i < length (pool e) then StartPool_from (Suc i) (e\<lparr>pool := (pool e)[i := W_GetState]\<rparr>)
         else Inl PoolIndexOutOfRange)
      else Inr e)"
  by pat_completeness auto
termination
  by (relation "measure (\<lambda>(i, e). unat (scast (numThreads e) :: 64 word) - i)") auto

definition StartPool :: "('s, 'n, 'sol, 'v) engine \<Rightarrow> error + ('s, 'n, 'sol, 'v) engine" where
  "StartPool e = StartPool_from 0 e"

definition finished :: "'n wpc \<Rightarrow> bool" where
  "finished pc = (pc = W_NoThread \<or> pc = W_Exit)"

text \<open>
  The join loop (lines 72 to 76) returns when every joinable thread has finished. The
  workers run under the schedule \<open>sched\<close>: at time \<open>k\<close> thread \<open>sched k\<close> takes a step.
  \<open>None\<close> is a join that never returns.
\<close>

partial_function (option) join_pool ::
  "('s, 'n, 'sol) VFState \<Rightarrow> (nat \<Rightarrow> nat) \<Rightarrow> nat \<Rightarrow> ('s, 'n, 'sol, 'v) engine
    \<Rightarrow> (error + ('s, 'n, 'sol, 'v) engine) option" where
  "join_pool c sched k e =
     (if list_all finished (pool e) then Some (Inr e)
      else (case wstep c (sched k) e of Inl err \<Rightarrow> Some (Inl err)
            | Inr (a, e') \<Rightarrow> join_pool c sched (Suc k) e'))"

declare join_pool.simps [code]

text \<open>\<^verbatim>\<open>FindAllMatchings(s)\<close> (lines 66 to 80), for the root state at handle \<open>s\<close>.\<close>

definition FindAllMatchings ::
  "('s, 'n, 'sol) VFState \<Rightarrow> (nat \<Rightarrow> nat) \<Rightarrow> nat \<Rightarrow> ('s, 'n, 'sol, 'v) engine
    \<Rightarrow> (error + (bool \<times> ('s, 'n, 'sol, 'v) engine)) option" where
  "FindAllMatchings c sched s e =
     (case ProcessState c s e of None \<Rightarrow> None
      | Some (Inl err) \<Rightarrow> Some (Inl err)
      | Some (Inr (r, acts, e1)) \<Rightarrow>
          (case StartPool e1 of Inl err \<Rightarrow> Some (Inl err)
           | Inr e2 \<Rightarrow>
               (case join_pool c sched 0 e2 of None \<Rightarrow> None
                | Some (Inl err) \<Rightarrow> Some (Inl err)
                | Some (Inr e3) \<Rightarrow> Some (Inr (True, e3)))))"

subsection \<open>A small instance\<close>

text \<open>
  Two query nodes are matched to two target nodes, injectively. A state is the list of
  the target nodes chosen so far; the candidate pairs of a state pair the next query
  node with target 0 and then target 1; the node 9 stands for \<^verbatim>\<open>NULL_NODE\<close>.
\<close>

definition two_by_two :: "(nat list, nat, nat list) VFState" where
  "two_by_two =
     \<lparr> IsGoal = (\<lambda>st. length st = 2),
       IsDead = (\<lambda>st. False),
       NextPair = (\<lambda>st n1 n2. if n2 = 9 then Some (length st, 0)
                               else if n2 = 0 then Some (length st, 1) else None),
       IsFeasiblePair = (\<lambda>st n1 n2. n2 \<notin> set st),
       AddPair = (\<lambda>st n1 n2. st @ [n2]),
       GetCoreSet = (\<lambda>st. st),
       NULL_NODE = 9 \<rparr>"

text \<open>A visitor that counts its calls and asks to stop at each of them.\<close>

definition stop_visitor :: "nat \<Rightarrow> nat list \<Rightarrow> bool \<times> nat" where
  "stop_visitor k st = (False, Suc k)"

definition engine0 :: "16 word \<Rightarrow> (nat list, nat, nat list, nat) engine" where
  "engine0 n = ParallelMatchingEngine n True (- 1) (Some stop_visitor) 0 [0 \<mapsto> []] 1"

subsection \<open>The children of a state\<close>

text \<open>
  The candidate pairs of a state, as the description of the cursor has them: the pairs
  that \<^verbatim>\<open>NextPair\<close> returns when each call is given the pair returned before,
  starting from the given pair, until it reports exhaustion. The cursor may take at most
  \<open>k\<close> calls; \<open>None\<close> says that it needs more.
\<close>

fun candidate_pairs :: "('s, 'n, 'sol) VFState \<Rightarrow> 's \<Rightarrow> nat \<Rightarrow> 'n \<Rightarrow> 'n \<Rightarrow> ('n \<times> 'n) list option" where
  "candidate_pairs c st 0 n1 n2 = None"
| "candidate_pairs c st (Suc k) n1 n2 =
     (case NextPair c st n1 n2 of None \<Rightarrow> Some []
      | Some (m1, m2) \<Rightarrow> map_option ((#) (m1, m2)) (candidate_pairs c st k m1 m2))"

text \<open>The pairs that pass \<^verbatim>\<open>IsFeasiblePair\<close>, and the copy of a state extended by one pair.\<close>

definition feasible_pairs :: "('s, 'n, 'sol) VFState \<Rightarrow> 's \<Rightarrow> ('n \<times> 'n) list \<Rightarrow> ('n \<times> 'n) list" where
  "feasible_pairs c st ps = filter (\<lambda>(m1, m2). IsFeasiblePair c st m1 m2) ps"

definition child :: "('s, 'n, 'sol) VFState \<Rightarrow> 's \<Rightarrow> 'n \<times> 'n \<Rightarrow> 's" where
  "child c st p = AddPair c st (fst p) (snd p)"

text \<open>Storing the given states at fresh handles and pushing the handles, one after the other.\<close>

fun put_children :: "'s list \<Rightarrow> ('s, 'n, 'sol, 'v) engine \<Rightarrow> ('s, 'n, 'sol, 'v) engine" where
  "put_children [] e = e"
| "put_children (x # xs) e =
     put_children xs (e\<lparr>heap := (heap e)(next_handle e \<mapsto> x),
                        next_handle := Suc (next_handle e),
                        globalStateStack := next_handle e # globalStateStack e\<rparr>)"

text \<open>An engine whose state at handle 0 is a goal.\<close>

definition goal_engine :: "(nat list, nat, nat list, nat) engine" where
  "goal_engine = ParallelMatchingEngine 2 True (- 1) (Some stop_visitor) 0 [0 \<mapsto> [1, 0]] 1"

section \<open>Invariants and measures\<close>

subsection \<open>The expansion tree of a state\<close>

text \<open>
  The expansion tree of a state has the state at its root and, below a state that is
  neither a goal nor dead, the trees of its children. \<open>finite_expansion c k st\<close> says
  that the tree of \<open>st\<close> is finite, of depth at most \<open>k\<close>, with every cursor in it
  exhausted within \<open>k\<close> calls.
\<close>

fun finite_expansion :: "('s, 'n, 'sol) VFState \<Rightarrow> nat \<Rightarrow> 's \<Rightarrow> bool" where
  "finite_expansion c 0 st = False"
| "finite_expansion c (Suc k) st =
     (IsGoal c st \<or> IsDead c st \<or>
      (case candidate_pairs c st (Suc k) (NULL_NODE c) (NULL_NODE c) of None \<Rightarrow> False
       | Some ps \<Rightarrow> list_all (\<lambda>p. finite_expansion c k (child c st p)) (feasible_pairs c st ps)))"

text \<open>The number of goal states in the expansion tree.\<close>

fun goal_count :: "('s, 'n, 'sol) VFState \<Rightarrow> nat \<Rightarrow> 's \<Rightarrow> nat" where
  "goal_count c 0 st = 0"
| "goal_count c (Suc k) st =
     (if IsGoal c st then 1 else if IsDead c st then 0
      else (case candidate_pairs c st (Suc k) (NULL_NODE c) (NULL_NODE c) of None \<Rightarrow> 0
            | Some ps \<Rightarrow> sum_list (map (\<lambda>p. goal_count c k (child c st p)) (feasible_pairs c st ps))))"

text \<open>
  The number of steps that the workers take for a state and all the states below it,
  from the entry of \<^verbatim>\<open>ProcessState\<close> to the decrement of the counter.
\<close>

fun pwork :: "('s, 'n, 'sol) VFState \<Rightarrow> nat \<Rightarrow> 's \<Rightarrow> nat" where
  "pwork c 0 st = 0"
| "pwork c (Suc k) st =
     (if IsGoal c st then 6 else if IsDead c st then 4
      else (case candidate_pairs c st (Suc k) (NULL_NODE c) (NULL_NODE c) of None \<Rightarrow> 0
            | Some ps \<Rightarrow> 5 + length ps +
                sum_list (map (\<lambda>p. 4 + pwork c k (child c st p)) (feasible_pairs c st ps))))"

text \<open>
  The same three notions for the rest of the expansion loop of a state, when the cursor
  stands after the pair \<open>(n1, n2)\<close>.
\<close>

definition loop_fin :: "('s, 'n, 'sol) VFState \<Rightarrow> nat \<Rightarrow> 's \<Rightarrow> 'n \<Rightarrow> 'n \<Rightarrow> bool" where
  "loop_fin c F st n1 n2 =
     (case candidate_pairs c st F n1 n2 of None \<Rightarrow> False
      | Some ps \<Rightarrow> list_all (\<lambda>p. finite_expansion c F (child c st p)) (feasible_pairs c st ps))"

definition loop_goals :: "('s, 'n, 'sol) VFState \<Rightarrow> nat \<Rightarrow> 's \<Rightarrow> 'n \<Rightarrow> 'n \<Rightarrow> nat" where
  "loop_goals c F st n1 n2 =
     (case candidate_pairs c st F n1 n2 of None \<Rightarrow> 0
      | Some ps \<Rightarrow> sum_list (map (\<lambda>p. goal_count c F (child c st p)) (feasible_pairs c st ps)))"

definition loop_work :: "('s, 'n, 'sol) VFState \<Rightarrow> nat \<Rightarrow> 's \<Rightarrow> 'n \<Rightarrow> 'n \<Rightarrow> nat" where
  "loop_work c F st n1 n2 =
     (case candidate_pairs c st F n1 n2 of None \<Rightarrow> 0
      | Some ps \<Rightarrow> 1 + length ps +
          sum_list (map (\<lambda>p. 4 + pwork c F (child c st p)) (feasible_pairs c st ps)))"

subsection \<open>Well-formed engines\<close>

text \<open>The handles a worker holds at a program point.\<close>

fun owns :: "'n wpc \<Rightarrow> nat list" where
  "owns (W_Locked s) = [s]"
| "owns (W_While (Some s)) = [s]"
| "owns (W_Process s (P_Put s1 n1 n2)) = [s, s1]"
| "owns (W_Process s pc) = [s]"
| "owns (W_Delete s) = [s]"
| "owns pc = []"

text \<open>The program points between the increment and the decrement of \<^verbatim>\<open>activeWorkerCount\<close>.\<close>

fun credit :: "'n wpc \<Rightarrow> bool" where
  "credit (W_While (Some s)) = True"
| "credit (W_Process s pc) = True"
| "credit (W_Delete s) = True"
| "credit (W_Dec s) = True"
| "credit pc = False"

text \<open>The program point at which a worker holds \<^verbatim>\<open>statesMutex\<close>.\<close>

fun is_locked :: "'n wpc \<Rightarrow> bool" where
  "is_locked (W_Locked s) = True"
| "is_locked pc = False"

text \<open>A handle of a live state with a finite expansion tree.\<close>

definition state_ok :: "('s, 'n, 'sol) VFState \<Rightarrow> nat \<Rightarrow> (nat \<rightharpoonup> 's) \<Rightarrow> nat \<Rightarrow> bool" where
  "state_ok c F hp h = (case hp h of None \<Rightarrow> False | Some st \<Rightarrow> finite_expansion c F st)"

fun loop_ok :: "('s, 'n, 'sol) VFState \<Rightarrow> nat \<Rightarrow> (nat \<rightharpoonup> 's) \<Rightarrow> 'n wpc \<Rightarrow> bool" where
  "loop_ok c F hp (W_Process s (P_Loop n1 n2)) =
     (case hp s of None \<Rightarrow> False | Some st \<Rightarrow> loop_fin c F st n1 n2)"
| "loop_ok c F hp (W_Process s (P_Put s1 n1 n2)) =
     (case hp s of None \<Rightarrow> False | Some st \<Rightarrow> loop_fin c F st n1 n2)"
| "loop_ok c F hp pc = True"

text \<open>
  Every live state has one owner: the handles on the stack and the handles held by the
  workers are pairwise different, allocated, live, and their trees are finite.
\<close>

definition wf_handles :: "('s, 'n, 'sol) VFState \<Rightarrow> nat \<Rightarrow> ('s, 'n, 'sol, 'v) engine \<Rightarrow> bool" where
  "wf_handles c F e \<longleftrightarrow>
     distinct (globalStateStack e) \<and>
     (\<forall>h \<in> set (globalStateStack e). h < next_handle e \<and> state_ok c F (heap e) h) \<and>
     (\<forall>t < length (pool e).
        distinct (owns (pool e ! t)) \<and> loop_ok c F (heap e) (pool e ! t) \<and>
        (\<forall>h \<in> set (owns (pool e ! t)).
           h < next_handle e \<and> state_ok c F (heap e) h \<and> h \<notin> set (globalStateStack e)) \<and>
        (\<forall>u < length (pool e). u \<noteq> t \<longrightarrow>
           set (owns (pool e ! t)) \<inter> set (owns (pool e ! u)) = {}))"

text \<open>The lock is held by the one worker inside \<^verbatim>\<open>GetState\<close>, if any.\<close>

definition wf_mutex :: "('s, 'n, 'sol, 'v) engine \<Rightarrow> bool" where
  "wf_mutex e \<longleftrightarrow>
     (case statesMutex e of
        None \<Rightarrow> \<forall>t < length (pool e). \<not> is_locked (pool e ! t)
      | Some u \<Rightarrow> u < length (pool e) \<and> is_locked (pool e ! u) \<and>
          (\<forall>t < length (pool e). t \<noteq> u \<longrightarrow> \<not> is_locked (pool e ! t)))"

text \<open>
  The counter is the number of workers between their increment and their decrement; the
  pool has fewer than \<open>2 ^ 15\<close> threads, as a positive \<^verbatim>\<open>int16_t\<close> count gives.
\<close>

definition wf_count :: "('s, 'n, 'sol, 'v) engine \<Rightarrow> bool" where
  "wf_count e \<longleftrightarrow>
     length (pool e) < 2 ^ 15 \<and>
     activeWorkerCount e = of_nat (length (filter credit (pool e)))"

definition wf :: "('s, 'n, 'sol) VFState \<Rightarrow> nat \<Rightarrow> ('s, 'n, 'sol, 'v) engine \<Rightarrow> bool" where
  "wf c F e \<longleftrightarrow> wf_handles c F e \<and> wf_mutex e \<and> wf_count e"

text \<open>A worker that will call \<^verbatim>\<open>GetState\<close> again before it leaves \<^verbatim>\<open>Run\<close>.\<close>

fun pending :: "'n wpc \<Rightarrow> bool" where
  "pending W_NoThread = False"
| "pending (W_While None) = False"
| "pending W_Exit = False"
| "pending pc = True"

definition wf_pending :: "('s, 'n, 'sol, 'v) engine \<Rightarrow> bool" where
  "wf_pending e \<longleftrightarrow>
     (globalStateStack e \<noteq> [] \<longrightarrow> (\<exists>t < length (pool e). pending (pool e ! t)))"

subsection \<open>Work and goals still to come\<close>

definition state_pwork :: "('s, 'n, 'sol) VFState \<Rightarrow> nat \<Rightarrow> (nat \<rightharpoonup> 's) \<Rightarrow> nat \<Rightarrow> nat" where
  "state_pwork c F hp h = (case hp h of None \<Rightarrow> 0 | Some st \<Rightarrow> pwork c F st)"

definition state_goals :: "('s, 'n, 'sol) VFState \<Rightarrow> nat \<Rightarrow> (nat \<rightharpoonup> 's) \<Rightarrow> nat \<Rightarrow> nat" where
  "state_goals c F hp h = (case hp h of None \<Rightarrow> 0 | Some st \<Rightarrow> goal_count c F st)"

definition state_loop_work ::
  "('s, 'n, 'sol) VFState \<Rightarrow> nat \<Rightarrow> (nat \<rightharpoonup> 's) \<Rightarrow> nat \<Rightarrow> 'n \<Rightarrow> 'n \<Rightarrow> nat" where
  "state_loop_work c F hp h n1 n2 = (case hp h of None \<Rightarrow> 0 | Some st \<Rightarrow> loop_work c F st n1 n2)"

definition state_loop_goals ::
  "('s, 'n, 'sol) VFState \<Rightarrow> nat \<Rightarrow> (nat \<rightharpoonup> 's) \<Rightarrow> nat \<Rightarrow> 'n \<Rightarrow> 'n \<Rightarrow> nat" where
  "state_loop_goals c F hp h n1 n2 = (case hp h of None \<Rightarrow> 0 | Some st \<Rightarrow> loop_goals c F st n1 n2)"

fun rem_work :: "('s, 'n, 'sol) VFState \<Rightarrow> nat \<Rightarrow> (nat \<rightharpoonup> 's) \<Rightarrow> 'n wpc \<Rightarrow> nat" where
  "rem_work c F hp (W_Locked s) = 2 + state_pwork c F hp s"
| "rem_work c F hp (W_While (Some s)) = 1 + state_pwork c F hp s"
| "rem_work c F hp (W_Process s P_Entry) = state_pwork c F hp s"
| "rem_work c F hp (W_Process s P_Store) = 5"
| "rem_work c F hp (W_Process s P_Visit) = 4"
| "rem_work c F hp (W_Process s (P_Loop n1 n2)) = 3 + state_loop_work c F hp s n1 n2"
| "rem_work c F hp (W_Process s (P_Put s1 n1 n2)) =
     7 + state_pwork c F hp s1 + state_loop_work c F hp s n1 n2"
| "rem_work c F hp (W_Process s (P_Return r)) = 3"
| "rem_work c F hp (W_Delete s) = 2"
| "rem_work c F hp (W_Dec s) = 1"
| "rem_work c F hp pc = 0"

fun rem_goals :: "('s, 'n, 'sol) VFState \<Rightarrow> nat \<Rightarrow> (nat \<rightharpoonup> 's) \<Rightarrow> 'n wpc \<Rightarrow> nat" where
  "rem_goals c F hp (W_Locked s) = state_goals c F hp s"
| "rem_goals c F hp (W_While (Some s)) = state_goals c F hp s"
| "rem_goals c F hp (W_Process s P_Entry) = state_goals c F hp s"
| "rem_goals c F hp (W_Process s (P_Loop n1 n2)) = state_loop_goals c F hp s n1 n2"
| "rem_goals c F hp (W_Process s (P_Put s1 n1 n2)) =
     state_goals c F hp s1 + state_loop_goals c F hp s n1 n2"
| "rem_goals c F hp pc = 0"

fun storing :: "'n wpc \<Rightarrow> nat" where
  "storing (W_Process s P_Store) = 1"
| "storing pc = 0"

text \<open>The steps the workers still have to take for the states that exist.\<close>

definition mu :: "('s, 'n, 'sol) VFState \<Rightarrow> nat \<Rightarrow> ('s, 'n, 'sol, 'v) engine \<Rightarrow> nat" where
  "mu c F e =
     sum_list (map (\<lambda>h. 3 + state_pwork c F (heap e) h) (globalStateStack e)) +
     sum_list (map (rem_work c F (heap e)) (pool e))"

text \<open>The goal states not yet counted, and the solutions counted but not yet stored.\<close>

definition pending_goals :: "('s, 'n, 'sol) VFState \<Rightarrow> nat \<Rightarrow> ('s, 'n, 'sol, 'v) engine \<Rightarrow> nat" where
  "pending_goals c F e =
     sum_list (map (state_goals c F (heap e)) (globalStateStack e)) +
     sum_list (map (rem_goals c F (heap e)) (pool e))"

definition pending_stores :: "('s, 'n, 'sol, 'v) engine \<Rightarrow> nat" where
  "pending_stores e = sum_list (map storing (pool e))"

text \<open>The actions that leave the work to do as it is.\<close>

fun quiet :: "'sol action \<Rightarrow> bool" where
  "quiet Idle = True"
| "quiet Blocked = True"
| "quiet PopEmpty = True"
| "quiet Spin = True"
| "quiet Exit = True"
| "quiet a = False"

text \<open>What an action adds to the solution counter.\<close>

fun counts :: "'sol action \<Rightarrow> nat" where
  "counts (Count s) = 1"
| "counts a = 0"

subsection \<open>Schedules\<close>

text \<open>The engine after \<open>k\<close> steps of the schedule \<open>sched\<close>.\<close>

primrec run :: "('s, 'n, 'sol) VFState \<Rightarrow> (nat \<Rightarrow> nat) \<Rightarrow> nat \<Rightarrow> ('s, 'n, 'sol, 'v) engine
    \<Rightarrow> error + ('s, 'n, 'sol, 'v) engine" where
  "run c sched 0 e = Inr e"
| "run c sched (Suc k) e =
     (case run c sched k e of Inl err \<Rightarrow> Inl err
      | Inr e' \<Rightarrow> (case wstep c (sched k) e' of Inl err \<Rightarrow> Inl err | Inr (a, e'') \<Rightarrow> Inr e''))"

text \<open>A schedule is fair to \<open>n\<close> threads when each of them gets a step again and again.\<close>

definition fair :: "nat \<Rightarrow> (nat \<Rightarrow> nat) \<Rightarrow> bool" where
  "fair n sched \<longleftrightarrow> (\<forall>t < n. \<forall>i. \<exists>j \<ge> i. sched j = t)"

text \<open>The invariant of the worker pool.\<close>

definition good :: "('s, 'n, 'sol) VFState \<Rightarrow> nat \<Rightarrow> ('s, 'n, 'sol, 'v) engine \<Rightarrow> bool" where
  "good c F e \<longleftrightarrow> wf c F e \<and> wf_pending e"

text \<open>The workers that hold a state, and the thread whose next step is work.\<close>

fun active :: "'n wpc \<Rightarrow> bool" where
  "active (W_Locked s) = True"
| "active (W_While (Some s)) = True"
| "active (W_Process s pc) = True"
| "active (W_Delete s) = True"
| "active (W_Dec s) = True"
| "active pc = False"

definition helpful :: "('s, 'n, 'sol, 'v) engine \<Rightarrow> nat \<Rightarrow> bool" where
  "helpful e t \<longleftrightarrow> t < length (pool e) \<and>
     (case statesMutex e of Some u \<Rightarrow> t = u
      | None \<Rightarrow> active (pool e ! t) \<or> (pool e ! t = W_GetState \<and> globalStateStack e \<noteq> []))"

text \<open>The steps an idle worker needs to leave \<^verbatim>\<open>Run\<close> once all work is done.\<close>

fun idle_rank :: "'n wpc \<Rightarrow> nat" where
  "idle_rank W_GetState = 2"
| "idle_rank (W_While None) = 1"
| "idle_rank pc = 0"

definition nu :: "('s, 'n, 'sol, 'v) engine \<Rightarrow> nat" where
  "nu e = sum_list (map idle_rank (pool e))"

declare StartPool_from.simps [simp del]

text \<open>
  What the solution counter and the solution log will be at the end: the quantities that
  no step changes.
\<close>

definition tally :: "('s, 'n, 'sol) VFState \<Rightarrow> nat \<Rightarrow> ('s, 'n, 'sol, 'v) engine \<Rightarrow> nat" where
  "tally c F e = length (solutions e) + pending_stores e + pending_goals c F e"

definition same_books ::
  "('s, 'n, 'sol) VFState \<Rightarrow> nat \<Rightarrow> ('s, 'n, 'sol, 'v) engine \<Rightarrow> ('s, 'n, 'sol, 'v) engine \<Rightarrow> bool" where
  "same_books c F e0 e \<longleftrightarrow>
     solCount e + of_nat (pending_goals c F e) = solCount e0 + of_nat (pending_goals c F e0) \<and>
     storeSolutions e = storeSolutions e0 \<and>
     (storeSolutions e0 \<longrightarrow> tally c F e = tally c F e0) \<and>
     (\<not> storeSolutions e0 \<longrightarrow> solutions e = solutions e0) \<and>
     length (pool e) = length (pool e0)"

text \<open>The root state belongs to the caller: no worker and no stack entry refers to it.\<close>

definition root_safe :: "nat \<Rightarrow> 's \<Rightarrow> ('s, 'n, 'sol, 'v) engine \<Rightarrow> bool" where
  "root_safe r st e \<longleftrightarrow>
     heap e r = Some st \<and> r < next_handle e \<and> r \<notin> set (globalStateStack e) \<and>
     (\<forall>t < length (pool e). r \<notin> set (owns (pool e ! t)))"

text \<open>
  \<open>started c s e e2\<close>: \<open>e2\<close> is the engine at the moment \<^verbatim>\<open>FindAllMatchings(s)\<close> has
  processed the root and started the pool.
\<close>

definition started ::
  "('s, 'n, 'sol) VFState \<Rightarrow> nat \<Rightarrow> ('s, 'n, 'sol, 'v) engine \<Rightarrow> ('s, 'n, 'sol, 'v) engine \<Rightarrow> bool" where
  "started c s e e2 \<longleftrightarrow>
     (\<exists>r acts e1. ProcessState c s e = Some (Inr (r, acts, e1)) \<and> StartPool e1 = Inr e2)"

fun pops :: "(nat \<times> 'sol action) list \<Rightarrow> nat list" where
  "pops [] = []"
| "pops ((t, Pop s) # tr) = s # pops tr"
| "pops (x # tr) = pops tr"

fun putting :: "'n wpc \<Rightarrow> nat option" where
  "putting (W_Process s (P_Put s1 n1 n2)) = Some s1"
| "putting pc = None"

definition pops_fresh :: "(nat \<times> 'sol action) list \<Rightarrow> ('s, 'n, 'sol, 'v) engine \<Rightarrow> bool" where
  "pops_fresh tr e \<longleftrightarrow>
     distinct (pops tr) \<and>
     (\<forall>h \<in> set (pops tr). h < next_handle e \<and> h \<notin> set (globalStateStack e) \<and>
        (\<forall>t < length (pool e). putting (pool e ! t) \<noteq> Some h))"

definition start_engine :: "('s, 'n, 'sol) VFState \<Rightarrow> nat \<Rightarrow> ('s, 'n, 'sol, 'v) engine
    \<Rightarrow> ('s, 'n, 'sol, 'v) engine option" where
  "start_engine c s e =
     (case ProcessState c s e of
        Some (Inr (r, acts, e1)) \<Rightarrow> (case StartPool e1 of Inr e2 \<Rightarrow> Some e2 | Inl err \<Rightarrow> None)
      | _ \<Rightarrow> None)"

text \<open>
  What an observer sees of an execution of the workers under the schedule \<open>sch\<close>, from
  the engine as \<^verbatim>\<open>FindAllMatchings\<close> starts it on the root \<open>s\<close>: the trace, and the
  program points, the frontier, the counter of active workers, the solution counter and
  the solution log at the end.
\<close>

definition observe :: "('s, 'n, 'sol) VFState \<Rightarrow> nat \<Rightarrow> ('s, 'n, 'sol, 'v) engine \<Rightarrow> nat list
    \<Rightarrow> ((nat \<times> 'sol action) list \<times> 'n wpc list \<times> nat option \<times> nat list \<times> 16 word \<times>
        32 word \<times> 'sol list) option" where
  "observe c s e sch =
     (case start_engine c s e of
        None \<Rightarrow> None
      | Some e2 \<Rightarrow>
          (case exec c sch e2 of
             Inl err \<Rightarrow> None
           | Inr (tr, e') \<Rightarrow>
               Some (tr, pool e', statesMutex e', globalStateStack e', activeWorkerCount e',
                     solCount e', solutions e')))"

text \<open>A visitor that counts its calls and answers true.\<close>

definition go_visitor :: "nat \<Rightarrow> nat list \<Rightarrow> bool \<times> nat" where
  "go_visitor k st = (True, Suc k)"


text \<open>The actions of the thread \<open>t\<close> in a trace, in their order.\<close>

definition own :: "(nat \<times> 'sol action) list \<Rightarrow> nat \<Rightarrow> 'sol action list" where
  "own tr t = map snd (filter (\<lambda>x. fst x = t) tr)"

text \<open>The state that a worker has popped and has not yet given up.\<close>

fun current :: "'n wpc \<Rightarrow> nat option" where
  "current (W_Locked s) = Some s"
| "current (W_While (Some s)) = Some s"
| "current (W_Process s pc) = Some s"
| "current (W_Delete s) = Some s"
| "current (W_Dec s) = Some s"
| "current pc = None"

text \<open>
  What the program point of a worker tells about the actions that it has taken: the
  state it is on was popped by it; past the increment of the counter of solutions, the
  increment is among its actions, and past the append to the log so is the append (when
  solutions are stored); when the state is being destroyed \<^verbatim>\<open>ProcessState\<close> has returned;
  and each child that it has allocated has been pushed, but for the one it is pushing.
\<close>

definition local_ok :: "bool \<Rightarrow> 'sol action list \<Rightarrow> 'n wpc \<Rightarrow> bool" where
  "local_ok store acts pc \<longleftrightarrow>
     (\<forall>h. current pc = Some h \<longrightarrow> Pop h \<in> set acts) \<and>
     (\<forall>h. pc = W_Process h P_Store \<longrightarrow> Count h \<in> set acts) \<and>
     (\<forall>h. pc = W_Process h P_Visit \<longrightarrow>
        Count h \<in> set acts \<and> (store \<longrightarrow> (\<exists>sol. Store h sol \<in> set acts))) \<and>
     (\<forall>h. pc = W_Delete h \<longrightarrow> (\<exists>b. Return h b \<in> set acts)) \<and>
     (\<forall>h. pc = W_Dec h \<longrightarrow> (\<exists>b. Return h b \<in> set acts) \<and> Delete h \<in> set acts) \<and>
     (\<forall>h s1. Alloc h s1 \<in> set acts \<longrightarrow>
        Push s1 \<in> set acts \<or> (\<exists>n1 n2. pc = W_Process h (P_Put s1 n1 n2)))"

text \<open>
  Each decrement of the counter for a state comes after the pop of that state, the return
  of \<^verbatim>\<open>ProcessState\<close> on it and its destruction, and after the push of each child
  allocated for it.
\<close>

definition dec_ordered :: "'sol action list \<Rightarrow> bool" where
  "dec_ordered acts \<longleftrightarrow>
     (\<forall>xs h ys. acts = xs @ Dec h # ys \<longrightarrow>
        Pop h \<in> set xs \<and> (\<exists>b. Return h b \<in> set xs) \<and> Delete h \<in> set xs \<and>
        (\<forall>s1. Alloc h s1 \<in> set xs \<longrightarrow> Push s1 \<in> set xs))"

text \<open>Each call of the visitor comes after the count of the goal and, when solutions are
  stored, after its append to the log.\<close>

definition visit_ordered :: "bool \<Rightarrow> 'sol action list \<Rightarrow> bool" where
  "visit_ordered store acts \<longleftrightarrow>
     (\<forall>xs s b ys. acts = xs @ Visit s b # ys \<longrightarrow>
        Count s \<in> set xs \<and> (store \<longrightarrow> (\<exists>sol. Store s sol \<in> set xs)))"

text \<open>
  The invariant of the traces: the persistence flag is the one given, the threads that
  act are threads of the pool, and each of them is as the three notions above say.
\<close>

definition history :: "bool \<Rightarrow> (nat \<times> 'sol action) list \<Rightarrow> ('s, 'n, 'sol, 'v) engine \<Rightarrow> bool" where
  "history store tr e \<longleftrightarrow>
     storeSolutions e = store \<and>
     (\<forall>x \<in> set tr. snd x = Idle \<or> fst x < length (pool e)) \<and>
     (\<forall>t < length (pool e).
        local_ok store (own tr t) (pool e ! t) \<and> dec_ordered (own tr t) \<and>
        visit_ordered store (own tr t))"

text \<open>The solutions appended to the log and the number of increments of the counter of
  solutions in a trace.\<close>

fun stored :: "(nat \<times> 'sol action) list \<Rightarrow> 'sol list" where
  "stored [] = []"
| "stored ((t, Store s sol) # tr) = sol # stored tr"
| "stored (x # tr) = stored tr"

definition counted :: "(nat \<times> 'sol action) list \<Rightarrow> nat" where
  "counted tr = sum_list (map (\<lambda>x. counts (snd x)) tr)"

section \<open>Properties\<close>

subsection \<open>ProcessState on a thread that runs alone\<close>

lemma put_children_fields:
  "solCount (put_children xs e) = solCount e"
  "solutions (put_children xs e) = solutions e"
  "visit_state (put_children xs e) = visit_state e"
  "visit (put_children xs e) = visit e"
  "storeSolutions (put_children xs e) = storeSolutions e"
  "statesMutex (put_children xs e) = statesMutex e"
  "pool (put_children xs e) = pool e"
  "numThreads (put_children xs e) = numThreads e"
  "cpu (put_children xs e) = cpu e"
  "activeWorkerCount (put_children xs e) = activeWorkerCount e"
  by (induction xs arbitrary: e; simp)+

lemma put_children_next: "next_handle (put_children xs e) = next_handle e + length xs"
  by (induction xs arbitrary: e) simp_all

lemma put_children_stack:
  "globalStateStack (put_children xs e) =
     rev [next_handle e ..< next_handle e + length xs] @ globalStateStack e"
proof (induction xs arbitrary: e)
  case Nil
  show ?case by simp
next
  case (Cons x xs)
  have "[next_handle e ..< next_handle e + Suc (length xs)] =
        next_handle e # [Suc (next_handle e) ..< Suc (next_handle e) + length xs]"
    by (simp add: upt_rec)
  with Cons show ?case by simp
qed

lemma put_children_heap_old:
  "h < next_handle e \<Longrightarrow> heap (put_children xs e) h = heap e h"
  by (induction xs arbitrary: e) simp_all

lemma put_children_heap_new:
  "i < length xs \<Longrightarrow> heap (put_children xs e) (next_handle e + i) = Some (xs ! i)"
proof (induction xs arbitrary: e i)
  case Nil
  then show ?case by simp
next
  case (Cons x xs)
  show ?case
  proof (cases i)
    case 0
    then show ?thesis by (simp add: put_children_heap_old)
  next
    case (Suc j)
    with Cons.prems have "j < length xs" by simp
    from Cons.IH [OF this, of "e\<lparr>heap := (heap e)(next_handle e \<mapsto> x),
                        next_handle := Suc (next_handle e),
                        globalStateStack := next_handle e # globalStateStack e\<rparr>"]
    show ?thesis using Suc by simp
  qed
qed

lemma ProcessState_from_loop:
  assumes "candidate_pairs c st k n1 n2 = Some ps" "heap e s = Some st" "s < next_handle e"
  shows "\<exists>acts'. ProcessState_from c s (P_Loop n1 n2) acts e =
           Some (Inr (False, acts', put_children (map (child c st) (feasible_pairs c st ps)) e))"
  using assms
proof (induction k arbitrary: n1 n2 ps e acts)
  case 0
  then show ?case by simp
next
  case (Suc k)
  show ?case
  proof (cases "NextPair c st n1 n2")
    case None
    with Suc.prems have "ps = []" by simp
    with None Suc.prems show ?thesis
      by (subst ProcessState_from.simps, simp,
          subst ProcessState_from.simps, simp add: feasible_pairs_def)
  next
    case (Some m)
    obtain m1 m2 where m: "m = (m1, m2)" by (cases m)
    with Some Suc.prems obtain qs where
      qs: "candidate_pairs c st k m1 m2 = Some qs" and ps: "ps = (m1, m2) # qs"
      by auto
    show ?thesis
    proof (cases "IsFeasiblePair c st m1 m2")
      case False
      from Suc.IH [OF qs Suc.prems(2) Suc.prems(3), of "acts @ [Tau]"]
      obtain acts' where "ProcessState_from c s (P_Loop m1 m2) (acts @ [Tau]) e =
           Some (Inr (False, acts', put_children (map (child c st) (feasible_pairs c st qs)) e))"
        by blast
      with False Some m ps Suc.prems show ?thesis
        by (subst ProcessState_from.simps) (simp add: feasible_pairs_def)
    next
      case True
      let ?e1 = "e\<lparr>heap := (heap e)(next_handle e \<mapsto> AddPair c st m1 m2),
                        next_handle := Suc (next_handle e)\<rparr>"
      let ?e2 = "?e1\<lparr>globalStateStack := next_handle e # globalStateStack e\<rparr>"
      have h2: "heap ?e2 s = Some st" and n2: "s < next_handle ?e2"
        using Suc.prems by auto
      from Suc.IH [OF qs h2 n2, of "acts @ [Alloc s (next_handle e)] @ [Push (next_handle e)]"]
      obtain acts' where a: "ProcessState_from c s (P_Loop m1 m2)
             (acts @ [Alloc s (next_handle e)] @ [Push (next_handle e)]) ?e2 =
           Some (Inr (False, acts', put_children (map (child c st) (feasible_pairs c st qs)) ?e2))"
        by blast
      have "ProcessState_from c s (P_Loop n1 n2) acts e =
            ProcessState_from c s (P_Put (next_handle e) m1 m2) (acts @ [Alloc s (next_handle e)]) ?e1"
        using True Some m Suc.prems by (subst ProcessState_from.simps) simp
      also have "\<dots> = ProcessState_from c s (P_Loop m1 m2)
             (acts @ [Alloc s (next_handle e)] @ [Push (next_handle e)]) ?e2"
        by (subst ProcessState_from.simps) simp
      finally have b: "ProcessState_from c s (P_Loop n1 n2) acts e =
           Some (Inr (False, acts', put_children (map (child c st) (feasible_pairs c st qs)) ?e2))"
        using a by simp
      have "child c st (m1, m2) = AddPair c st m1 m2" by (simp add: child_def)
      with b True ps show ?thesis
        by (simp add: feasible_pairs_def)
    qed
  qed
qed


lemma ProcessState_from_Return [simp]:
  "ProcessState_from c s (P_Return r) acts e = Some (Inr (r, acts, e))"
  by (subst ProcessState_from.simps) simp

lemma ProcessState_from_step:
  assumes "pstep c s pc e = Inr (a, pc', e')" and "\<forall>r. pc \<noteq> P_Return r"
  shows "ProcessState_from c s pc acts e = ProcessState_from c s pc' (acts @ [a]) e'"
  using assms by (subst ProcessState_from.simps) (cases pc; auto)

lemma ProcessState_from_goal:
  assumes "heap e s = Some st" and "IsGoal c st"
  shows "ProcessState_from c s P_Entry acts e =
     Some (Inr
       ((case visit e of None \<Rightarrow> True | Some v \<Rightarrow> fst (v (visit_state e) st)),
        acts @ [Count s,
         (if storeSolutions e then Store s (GetCoreSet c st) else Tau),
         (case visit e of None \<Rightarrow> Tau | Some v \<Rightarrow> Visit s (fst (v (visit_state e) st)))],
        e\<lparr>solCount := solCount e + 1,
          solutions := (if storeSolutions e then solutions e @ [GetCoreSet c st]
                        else solutions e),
          visit_state := (case visit e of None \<Rightarrow> visit_state e
                          | Some v \<Rightarrow> snd (v (visit_state e) st))\<rparr>))"
proof -
  let ?e1 = "e\<lparr>solCount := solCount e + 1\<rparr>"
  let ?a2 = "if storeSolutions e then Store s (GetCoreSet c st) else Tau"
  let ?e2 = "?e1\<lparr>solutions := (if storeSolutions e then solutions e @ [GetCoreSet c st]
                        else solutions e)\<rparr>"
  let ?r = "case visit e of None \<Rightarrow> True | Some v \<Rightarrow> fst (v (visit_state e) st)"
  let ?a3 = "case visit e of None \<Rightarrow> Tau | Some v \<Rightarrow> Visit s (fst (v (visit_state e) st))"
  let ?e3 = "?e2\<lparr>visit_state := (case visit e of None \<Rightarrow> visit_state e
                          | Some v \<Rightarrow> snd (v (visit_state e) st))\<rparr>"
  have 1: "pstep c s P_Entry e = Inr (Count s, P_Store, ?e1)"
    using assms by simp
  have 2: "pstep c s P_Store ?e1 = Inr (?a2, P_Visit, ?e2)"
    using assms by simp
  have 3: "pstep c s P_Visit ?e2 = Inr (?a3, P_Return ?r, ?e3)"
    using assms by (simp split: option.split)
  have "ProcessState_from c s P_Entry acts e =
        ProcessState_from c s P_Store (acts @ [Count s]) ?e1"
    by (rule ProcessState_from_step [OF 1]) simp
  also have "\<dots> = ProcessState_from c s P_Visit ((acts @ [Count s]) @ [?a2]) ?e2"
    by (rule ProcessState_from_step [OF 2]) simp
  also have "\<dots> = ProcessState_from c s (P_Return ?r) (((acts @ [Count s]) @ [?a2]) @ [?a3]) ?e3"
    by (rule ProcessState_from_step [OF 3]) simp
  finally show ?thesis by simp
qed

text \<open>
  Claim C5. For a goal state, \<^verbatim>\<open>ProcessState\<close> returns after three steps: it adds one
  to the solution counter, appends the state's core set to the solution log if and only
  if \<^verbatim>\<open>storeSolutions\<close> is set, and calls the visitor once, on this state, if there is
  one. It returns the visitor's result, or true without a visitor. Nothing is allocated
  or pushed: the engine differs from the one before in the counter, the log and the
  visitor's state only.
\<close>

theorem ProcessState_goal:
  assumes "heap e s = Some st" and "IsGoal c st"
  shows "ProcessState c s e =
     Some (Inr
       ((case visit e of None \<Rightarrow> True | Some v \<Rightarrow> fst (v (visit_state e) st)),
        [Count s,
         (if storeSolutions e then Store s (GetCoreSet c st) else Tau),
         (case visit e of None \<Rightarrow> Tau | Some v \<Rightarrow> Visit s (fst (v (visit_state e) st)))],
        e\<lparr>solCount := solCount e + 1,
          solutions := (if storeSolutions e then solutions e @ [GetCoreSet c st]
                        else solutions e),
          visit_state := (case visit e of None \<Rightarrow> visit_state e
                          | Some v \<Rightarrow> snd (v (visit_state e) st))\<rparr>))"
  using ProcessState_from_goal [OF assms, of "[]"] by (simp add: ProcessState_def)

theorem ProcessState_goal_witness:
  "heap goal_engine 0 = Some [1, 0] \<and> IsGoal two_by_two [1, 0] \<and>
   ProcessState two_by_two 0 goal_engine =
     Some (Inr (False, [Count 0, Store 0 [1, 0], Visit 0 False],
                goal_engine\<lparr>solCount := 1, solutions := [[1, 0]], visit_state := 1\<rparr>))"
  using ProcessState_goal [of goal_engine 0 "[1, 0]" two_by_two]
  by (simp add: goal_engine_def ParallelMatchingEngine_def two_by_two_def stop_visitor_def)

text \<open>
  Claim C6. For a state that is not a goal, \<^verbatim>\<open>ProcessState\<close> returns false and leaves
  the solution counter and the solution log as they are. A dead state changes nothing at
  all. Otherwise, when the cursor started at \<^verbatim>\<open>(NULL_NODE, NULL_NODE)\<close> is exhausted
  after the candidate pairs \<open>ps\<close>, the feasible ones among them, in the order of the
  cursor, are each added to a copy of the state, and the copies are pushed in that order
  (so the last one is on top of the stack); the states that existed before are unchanged.
\<close>

theorem ProcessState_not_goal:
  assumes "heap e s = Some st" and "\<not> IsGoal c st" and "s < next_handle e"
  shows "(IsDead c st \<longrightarrow> ProcessState c s e = Some (Inr (False, [Tau], e))) \<and>
    (\<not> IsDead c st \<longrightarrow> candidate_pairs c st k (NULL_NODE c) (NULL_NODE c) = Some ps \<longrightarrow>
      (\<exists>acts e'. ProcessState c s e = Some (Inr (False, acts, e')) \<and>
         e' = put_children (map (child c st) (feasible_pairs c st ps)) e \<and>
         solCount e' = solCount e \<and> solutions e' = solutions e \<and>
         globalStateStack e' =
           rev [next_handle e ..< next_handle e + length (feasible_pairs c st ps)]
             @ globalStateStack e \<and>
         map (heap e') [next_handle e ..< next_handle e + length (feasible_pairs c st ps)] =
           map (\<lambda>p. Some (AddPair c st (fst p) (snd p))) (feasible_pairs c st ps) \<and>
         (\<forall>h < next_handle e. heap e' h = heap e h)))"
proof (intro conjI impI)
  assume "IsDead c st"
  with assms show "ProcessState c s e = Some (Inr (False, [Tau], e))"
    unfolding ProcessState_def
    by (subst ProcessState_from.simps) simp
next
  let ?fs = "feasible_pairs c st ps"
  let ?nh = "next_handle e"
  let ?e' = "put_children (map (child c st) ?fs) e"
  assume nd: "\<not> IsDead c st"
    and cp: "candidate_pairs c st k (NULL_NODE c) (NULL_NODE c) = Some ps"
  from ProcessState_from_loop [OF cp assms(1) assms(3), of "[Tau]"]
  obtain acts where a: "ProcessState_from c s (P_Loop (NULL_NODE c) (NULL_NODE c)) [Tau] e =
      Some (Inr (False, acts, ?e'))"
    by blast
  have run: "ProcessState c s e = Some (Inr (False, acts, ?e'))"
    unfolding ProcessState_def using assms nd a
    by (subst ProcessState_from.simps) simp
  have hp: "map (heap ?e') [?nh ..< ?nh + length ?fs] =
      map (\<lambda>p. Some (AddPair c st (fst p) (snd p))) ?fs"
  proof (rule nth_equalityI)
    show "length (map (heap ?e') [?nh ..< ?nh + length ?fs]) =
      length (map (\<lambda>p. Some (AddPair c st (fst p) (snd p))) ?fs)"
      by simp
  next
    fix i assume "i < length (map (heap ?e') [?nh ..< ?nh + length ?fs])"
    then have i: "i < length ?fs" by simp
    then have "heap ?e' (?nh + i) = Some (map (child c st) ?fs ! i)"
      using put_children_heap_new [of i "map (child c st) ?fs" e] by simp
    with i show "map (heap ?e') [?nh ..< ?nh + length ?fs] ! i =
      map (\<lambda>p. Some (AddPair c st (fst p) (snd p))) ?fs ! i"
      by (simp add: child_def)
  qed
  show "\<exists>acts e'. ProcessState c s e = Some (Inr (False, acts, e')) \<and>
         e' = ?e' \<and>
         solCount e' = solCount e \<and> solutions e' = solutions e \<and>
         globalStateStack e' = rev [?nh ..< ?nh + length ?fs] @ globalStateStack e \<and>
         map (heap e') [?nh ..< ?nh + length ?fs] =
           map (\<lambda>p. Some (AddPair c st (fst p) (snd p))) ?fs \<and>
         (\<forall>h < ?nh. heap e' h = heap e h)"
    using run hp
    by (intro exI [of _ acts] exI [of _ ?e'])
       (simp add: put_children_fields put_children_stack put_children_heap_old)
qed

theorem ProcessState_not_goal_witness:
  "heap (engine0 2) 0 = Some [] \<and> \<not> IsGoal two_by_two [] \<and> 0 < next_handle (engine0 2) \<and>
   \<not> IsDead two_by_two [] \<and>
   candidate_pairs two_by_two [] 3 (NULL_NODE two_by_two) (NULL_NODE two_by_two)
     = Some [(0, 0), (0, 1)] \<and>
   (\<exists>acts e'. ProcessState two_by_two 0 (engine0 2) = Some (Inr (False, acts, e')) \<and>
      solCount e' = 0 \<and> solutions e' = [] \<and> globalStateStack e' = [2, 1] \<and>
      map (heap e') [1, 2] = [Some [0], Some [1]])"
proof -
  have h: "heap (engine0 2) 0 = Some []" "\<not> IsGoal two_by_two []"
    "0 < next_handle (engine0 2)"
    by (simp_all add: engine0_def ParallelMatchingEngine_def two_by_two_def)
  have d: "\<not> IsDead two_by_two []" by (simp add: two_by_two_def)
  have cp: "candidate_pairs two_by_two [] 3 (NULL_NODE two_by_two) (NULL_NODE two_by_two)
     = Some [(0, 0), (0, 1)]"
    by (simp add: two_by_two_def numeral_3_eq_3)
  have fs: "feasible_pairs two_by_two [] [(0, 0), (0, 1)] = [(0, 0), (0, 1)]"
    by (simp add: feasible_pairs_def two_by_two_def)
  have u: "[Suc 0..<3] = [1, 2]" by (simp add: upt_rec)
  from ProcessState_not_goal [OF h, where k = 3 and ps = "[(0, 0), (0, 1)]"] d cp
  obtain acts e' where
    r: "ProcessState two_by_two 0 (engine0 2) = Some (Inr (False, acts, e'))" and
    e': "e' = put_children (map (child two_by_two [])
                 (feasible_pairs two_by_two [] [(0, 0), (0, 1)])) (engine0 2)"
    by blast
  have v: "solCount e' = 0 \<and> solutions e' = [] \<and> globalStateStack e' = [2, 1] \<and>
      map (heap e') [1, 2] = [Some [0], Some [1]]"
    unfolding e'
    by (simp add: feasible_pairs_def child_def two_by_two_def engine0_def
          ParallelMatchingEngine_def)
  have ex: "\<exists>acts e'. ProcessState two_by_two 0 (engine0 2) = Some (Inr (False, acts, e')) \<and>
      solCount e' = 0 \<and> solutions e' = [] \<and> globalStateStack e' = [2, 1] \<and>
      map (heap e') [1, 2] = [Some [0], Some [1]]"
    using r v by (intro exI [of _ acts] exI [of _ e'] conjI) simp_all
  show ?thesis using h d cp ex by (intro conjI) assumption+
qed

lemma candidate_pairs_mono:
  "candidate_pairs c st k n1 n2 = Some ps \<Longrightarrow> candidate_pairs c st (k + j) n1 n2 = Some ps"
proof (induction k arbitrary: n1 n2 ps)
  case 0
  then show ?case by simp
next
  case (Suc k)
  show ?case
  proof (cases "NextPair c st n1 n2")
    case None
    with Suc.prems show ?thesis by simp
  next
    case (Some m)
    obtain m1 m2 where m: "m = (m1, m2)" by (cases m)
    with Some Suc.prems obtain qs where
      qs: "candidate_pairs c st k m1 m2 = Some qs" and ps: "ps = (m1, m2) # qs"
      by auto
    from Suc.IH [OF qs] Some m ps show ?thesis by simp
  qed
qed

lemma expansion_mono:
  "finite_expansion c k st \<Longrightarrow>
     finite_expansion c (k + j) st \<and> goal_count c (k + j) st = goal_count c k st \<and>
     pwork c (k + j) st = pwork c k st"
proof (induction k arbitrary: st)
  case 0
  then show ?case by simp
next
  case (Suc k)
  show ?case
  proof (cases "IsGoal c st \<or> IsDead c st")
    case True
    then show ?thesis by auto
  next
    case False
    with Suc.prems obtain ps where
      ps: "candidate_pairs c st (Suc k) (NULL_NODE c) (NULL_NODE c) = Some ps" and
      ch: "list_all (\<lambda>p. finite_expansion c k (child c st p)) (feasible_pairs c st ps)"
      by (auto split: option.splits)
    from candidate_pairs_mono [OF ps, of j]
    have ps': "candidate_pairs c st (Suc (k + j)) (NULL_NODE c) (NULL_NODE c) = Some ps"
      by simp
    have a: "\<forall>p \<in> set (feasible_pairs c st ps).
        finite_expansion c (k + j) (child c st p) \<and>
        goal_count c (k + j) (child c st p) = goal_count c k (child c st p) \<and>
        pwork c (k + j) (child c st p) = pwork c k (child c st p)"
      using ch Suc.IH by (auto simp: list_all_iff)
    have g: "sum_list (map (\<lambda>p. goal_count c (k + j) (child c st p)) (feasible_pairs c st ps)) =
             sum_list (map (\<lambda>p. goal_count c k (child c st p)) (feasible_pairs c st ps))"
      by (rule arg_cong [where f = sum_list]) (use a in simp)
    have w: "sum_list (map (\<lambda>p. 4 + pwork c (k + j) (child c st p)) (feasible_pairs c st ps)) =
             sum_list (map (\<lambda>p. 4 + pwork c k (child c st p)) (feasible_pairs c st ps))"
      by (rule arg_cong [where f = sum_list]) (use a in simp)
    have f: "list_all (\<lambda>p. finite_expansion c (k + j) (child c st p)) (feasible_pairs c st ps)"
      using a by (simp add: list_all_iff)
    show ?thesis using False ps ps' g w f by (simp del: candidate_pairs.simps)
  qed
qed

lemma expansion_unfold:
  assumes "finite_expansion c F st" and "\<not> IsGoal c st" and "\<not> IsDead c st"
  shows "loop_fin c F st (NULL_NODE c) (NULL_NODE c) \<and>
         goal_count c F st = loop_goals c F st (NULL_NODE c) (NULL_NODE c) \<and>
         pwork c F st = 4 + loop_work c F st (NULL_NODE c) (NULL_NODE c)"
proof (cases F)
  case 0
  with assms show ?thesis by simp
next
  case (Suc k)
  with assms obtain ps where
    ps: "candidate_pairs c st (Suc k) (NULL_NODE c) (NULL_NODE c) = Some ps" and
    ch: "list_all (\<lambda>p. finite_expansion c k (child c st p)) (feasible_pairs c st ps)"
    by (auto split: option.splits)
  have a: "\<forall>p \<in> set (feasible_pairs c st ps).
        finite_expansion c (Suc k) (child c st p) \<and>
        goal_count c (Suc k) (child c st p) = goal_count c k (child c st p) \<and>
        pwork c (Suc k) (child c st p) = pwork c k (child c st p)"
  proof
    fix p assume "p \<in> set (feasible_pairs c st ps)"
    with ch have "finite_expansion c k (child c st p)" by (simp add: list_all_iff)
    from expansion_mono [OF this, of 1] show "finite_expansion c (Suc k) (child c st p) \<and>
        goal_count c (Suc k) (child c st p) = goal_count c k (child c st p) \<and>
        pwork c (Suc k) (child c st p) = pwork c k (child c st p)"
      by simp
  qed
  have g: "sum_list (map (\<lambda>p. goal_count c (Suc k) (child c st p)) (feasible_pairs c st ps)) =
           sum_list (map (\<lambda>p. goal_count c k (child c st p)) (feasible_pairs c st ps))"
    by (rule arg_cong [where f = sum_list]) (use a in \<open>simp del: goal_count.simps\<close>)
  have w: "sum_list (map (\<lambda>p. 4 + pwork c (Suc k) (child c st p)) (feasible_pairs c st ps)) =
           sum_list (map (\<lambda>p. 4 + pwork c k (child c st p)) (feasible_pairs c st ps))"
    by (rule arg_cong [where f = sum_list]) (use a in \<open>simp del: pwork.simps\<close>)
  have f: "list_all (\<lambda>p. finite_expansion c (Suc k) (child c st p)) (feasible_pairs c st ps)"
    using a by (simp add: list_all_iff del: finite_expansion.simps)
  have tg: "goal_count c (Suc k) st =
      sum_list (map (\<lambda>p. goal_count c k (child c st p)) (feasible_pairs c st ps))"
    using assms ps by (simp del: candidate_pairs.simps)
  have tw: "pwork c (Suc k) st = 5 + length ps +
      sum_list (map (\<lambda>p. 4 + pwork c k (child c st p)) (feasible_pairs c st ps))"
    using assms ps by (simp del: candidate_pairs.simps)
  show ?thesis
    unfolding loop_fin_def loop_goals_def loop_work_def Suc ps tg tw
    using g w f by (simp del: candidate_pairs.simps finite_expansion.simps goal_count.simps pwork.simps)
qed

lemma loop_exhausted:
  assumes "loop_fin c F st n1 n2" and "NextPair c st n1 n2 = None"
  shows "loop_goals c F st n1 n2 = 0 \<and> loop_work c F st n1 n2 = 1"
proof (cases F)
  case 0
  with assms show ?thesis by (simp add: loop_fin_def)
next
  case (Suc k)
  with assms show ?thesis
    by (simp add: loop_goals_def loop_work_def feasible_pairs_def)
qed

lemma loop_next:
  assumes "loop_fin c F st n1 n2" and "NextPair c st n1 n2 = Some (m1, m2)"
  shows "loop_fin c F st m1 m2 \<and>
    (IsFeasiblePair c st m1 m2 \<longrightarrow>
       finite_expansion c F (AddPair c st m1 m2) \<and>
       loop_goals c F st n1 n2 = goal_count c F (AddPair c st m1 m2) + loop_goals c F st m1 m2 \<and>
       loop_work c F st n1 n2 = 5 + pwork c F (AddPair c st m1 m2) + loop_work c F st m1 m2) \<and>
    (\<not> IsFeasiblePair c st m1 m2 \<longrightarrow>
       loop_goals c F st n1 n2 = loop_goals c F st m1 m2 \<and>
       loop_work c F st n1 n2 = 1 + loop_work c F st m1 m2)"
proof (cases F)
  case 0
  with assms show ?thesis by (simp add: loop_fin_def)
next
  case (Suc k)
  with assms obtain qs where
    qs: "candidate_pairs c st k m1 m2 = Some qs" and
    ps: "candidate_pairs c st (Suc k) n1 n2 = Some ((m1, m2) # qs)"
    by (auto simp: loop_fin_def split: option.splits)
  from candidate_pairs_mono [OF qs, of 1]
  have qs': "candidate_pairs c st (Suc k) m1 m2 = Some qs" by simp
  show ?thesis
    using assms(1) unfolding loop_fin_def loop_goals_def loop_work_def Suc ps qs'
    by (auto simp add: feasible_pairs_def child_def
          simp del: candidate_pairs.simps finite_expansion.simps goal_count.simps pwork.simps
          split: if_splits)
qed

lemma filter_update_length:
  "t < length xs \<Longrightarrow>
     length (filter P (xs[t := y])) + (if P (xs ! t) then 1 else 0) =
     length (filter P xs) + (if P y then 1 else 0)"
proof (induction xs arbitrary: t)
  case Nil
  then show ?case by simp
next
  case (Cons x xs)
  then show ?case by (cases t) auto
qed

lemma wstep_pc_cases [consumes 1, case_names NoThread GetBlocked PopEmpty Pop Inc Enter Spin
    Exit Goal Dead Expand Store NoStore NoVisit Visit Exhausted Alloc Skip PutBlocked Put
    Return Delete Dec Exited]:
  assumes "wstep_pc c t pc e = Inr (a, pc', e')"
  obtains
    "pc = W_NoThread" "pc' = W_NoThread" "e' = e" "a = Idle"
  | u where "pc = W_GetState" "statesMutex e = Some u" "pc' = W_GetState" "e' = e" "a = Blocked"
  | "pc = W_GetState" "statesMutex e = None" "globalStateStack e = []"
      "pc' = W_While None" "e' = e" "a = PopEmpty"
  | res rest where "pc = W_GetState" "statesMutex e = None" "globalStateStack e = res # rest"
      "pc' = W_Locked res" "e' = e\<lparr>globalStateStack := rest, statesMutex := Some t\<rparr>"
      "a = Pop res"
  | res where "pc = W_Locked res" "pc' = W_While (Some res)"
      "e' = e\<lparr>activeWorkerCount := activeWorkerCount e + 1, statesMutex := None\<rparr>" "a = Inc"
  | s where "pc = W_While (Some s)" "pc' = W_Process s P_Entry" "e' = e" "a = Tau"
  | "pc = W_While None" "0 <s activeWorkerCount e" "pc' = W_GetState" "e' = e" "a = Spin"
  | "pc = W_While None" "\<not> 0 <s activeWorkerCount e" "pc' = W_Exit" "e' = e" "a = Exit"
  | s st where "pc = W_Process s P_Entry" "heap e s = Some st" "IsGoal c st"
      "pc' = W_Process s P_Store" "e' = e\<lparr>solCount := solCount e + 1\<rparr>" "a = Count s"
  | s st where "pc = W_Process s P_Entry" "heap e s = Some st" "\<not> IsGoal c st" "IsDead c st"
      "pc' = W_Process s (P_Return False)" "e' = e" "a = Tau"
  | s st where "pc = W_Process s P_Entry" "heap e s = Some st" "\<not> IsGoal c st" "\<not> IsDead c st"
      "pc' = W_Process s (P_Loop (NULL_NODE c) (NULL_NODE c))" "e' = e" "a = Tau"
  | s st where "pc = W_Process s P_Store" "storeSolutions e" "heap e s = Some st"
      "pc' = W_Process s P_Visit" "e' = e\<lparr>solutions := solutions e @ [GetCoreSet c st]\<rparr>"
      "a = Store s (GetCoreSet c st)"
  | s where "pc = W_Process s P_Store" "\<not> storeSolutions e"
      "pc' = W_Process s P_Visit" "e' = e" "a = Tau"
  | s where "pc = W_Process s P_Visit" "visit e = None"
      "pc' = W_Process s (P_Return True)" "e' = e" "a = Tau"
  | s v st where "pc = W_Process s P_Visit" "visit e = Some v" "heap e s = Some st"
      "pc' = W_Process s (P_Return (fst (v (visit_state e) st)))"
      "e' = e\<lparr>visit_state := snd (v (visit_state e) st)\<rparr>"
      "a = Visit s (fst (v (visit_state e) st))"
  | s st n1 n2 where "pc = W_Process s (P_Loop n1 n2)" "heap e s = Some st"
      "NextPair c st n1 n2 = None" "pc' = W_Process s (P_Return False)" "e' = e" "a = Tau"
  | s st n1 n2 m1 m2 where "pc = W_Process s (P_Loop n1 n2)" "heap e s = Some st"
      "NextPair c st n1 n2 = Some (m1, m2)" "IsFeasiblePair c st m1 m2"
      "pc' = W_Process s (P_Put (next_handle e) m1 m2)"
      "e' = e\<lparr>heap := (heap e)(next_handle e \<mapsto> AddPair c st m1 m2),
               next_handle := Suc (next_handle e)\<rparr>"
      "a = Alloc s (next_handle e)"
  | s st n1 n2 m1 m2 where "pc = W_Process s (P_Loop n1 n2)" "heap e s = Some st"
      "NextPair c st n1 n2 = Some (m1, m2)" "\<not> IsFeasiblePair c st m1 m2"
      "pc' = W_Process s (P_Loop m1 m2)" "e' = e" "a = Tau"
  | s s1 n1 n2 u where "pc = W_Process s (P_Put s1 n1 n2)" "statesMutex e = Some u"
      "pc' = W_Process s (P_Put s1 n1 n2)" "e' = e" "a = Blocked"
  | s s1 n1 n2 where "pc = W_Process s (P_Put s1 n1 n2)" "statesMutex e = None"
      "pc' = W_Process s (P_Loop n1 n2)"
      "e' = e\<lparr>globalStateStack := s1 # globalStateStack e\<rparr>" "a = Push s1"
  | s r where "pc = W_Process s (P_Return r)" "pc' = W_Delete s" "e' = e" "a = Return s r"
  | s st where "pc = W_Delete s" "heap e s = Some st" "pc' = W_Dec s"
      "e' = e\<lparr>heap := (heap e)(s := None)\<rparr>" "a = Delete s"
  | s where "pc = W_Dec s" "pc' = W_GetState"
      "e' = e\<lparr>activeWorkerCount := activeWorkerCount e - 1\<rparr>" "a = Dec s"
  | "pc = W_Exit" "pc' = W_Exit" "e' = e" "a = Idle"
proof (cases pc)
  case W_NoThread
  with assms show ?thesis by (auto intro: that(1))
next
  case W_GetState
  with assms show ?thesis
    by (auto split: option.splits list.splits intro: that(2) that(3) that(4))
next
  case (W_Locked res)
  with assms show ?thesis by (auto intro: that(5))
next
  case (W_While x)
  with assms show ?thesis
    by (cases x) (auto split: if_splits intro: that(6) that(7) that(8))
next
  case (W_Process s ppc)
  show ?thesis
  proof (cases ppc)
    case P_Entry
    with W_Process assms show ?thesis
      by (auto split: option.splits if_splits intro: that(9) that(10) that(11))
  next
    case P_Store
    with W_Process assms show ?thesis
      by (auto split: option.splits if_splits intro: that(12) that(13))
  next
    case P_Visit
    with W_Process assms show ?thesis
      by (auto split: option.splits intro: that(14) that(15))
  next
    case (P_Loop n1 n2)
    with W_Process assms show ?thesis
      by (auto split: option.splits if_splits prod.splits intro: that(16) that(17) that(18))
  next
    case (P_Put s1 n1 n2)
    with W_Process assms show ?thesis
      by (auto split: option.splits intro: that(19) that(20))
  next
    case (P_Return r)
    with W_Process assms show ?thesis by (auto intro: that(21))
  qed
next
  case (W_Delete s)
  with assms show ?thesis by (auto split: option.splits intro: that(22))
next
  case (W_Dec s)
  with assms show ?thesis by (auto intro: that(23))
next
  case W_Exit
  with assms show ?thesis by (auto intro: that(24))
qed

lemma wf_count_step:
  assumes "wf_count e" and "t < length (pool e)"
    and "wstep_pc c t (pool e ! t) e = Inr (a, pc', e')"
  shows "wf_count (e'\<lparr>pool := (pool e')[t := pc']\<rparr>)"
proof -
  have len: "length (pool e) < 2 ^ 15" and
    awc: "activeWorkerCount e = of_nat (length (filter credit (pool e)))"
    using assms(1) by (simp_all add: wf_count_def)
  note fu = filter_update_length [OF assms(2), of credit pc']
  from assms(3) show ?thesis
  proof (cases rule: wstep_pc_cases)
    case (Dec s)
    with fu have "length (filter credit (pool e)) =
        Suc (length (filter credit ((pool e)[t := pc'])))"
      by simp
    then have "activeWorkerCount e - 1 = of_nat (length (filter credit ((pool e)[t := pc'])))"
      using awc by simp
    with Dec len show ?thesis by (simp add: wf_count_def)
  qed (use fu len awc in \<open>auto simp: wf_count_def\<close>)
qed

lemma wf_mutex_step:
  assumes "wf_mutex e" and "t < length (pool e)"
    and "wstep_pc c t (pool e ! t) e = Inr (a, pc', e')"
  shows "wf_mutex (e'\<lparr>pool := (pool e')[t := pc']\<rparr>)"
  using assms(3)
proof (cases rule: wstep_pc_cases)
  case (Inc res)
  with assms(1,2) have "statesMutex e = Some t"
    by (cases "statesMutex e") (auto simp: wf_mutex_def)
  with Inc assms(1,2) show ?thesis
    by (auto simp: wf_mutex_def nth_list_update)
qed (use assms(1,2) in \<open>auto simp: wf_mutex_def nth_list_update split: option.splits\<close>)

lemma state_ok_upd:
  "h \<noteq> k \<Longrightarrow> state_ok c F (hp(k := x)) h = state_ok c F hp h"
  by (simp add: state_ok_def)

lemma loop_ok_upd:
  "k \<notin> set (owns pc) \<Longrightarrow> loop_ok c F (hp(k := x)) pc = loop_ok c F hp pc"
  by (induction c F hp pc rule: loop_ok.induct) auto

lemma wf_handlesD:
  assumes "wf_handles c F e"
  shows "distinct (globalStateStack e)"
    and "\<And>h. h \<in> set (globalStateStack e) \<Longrightarrow> h < next_handle e"
    and "\<And>h. h \<in> set (globalStateStack e) \<Longrightarrow> state_ok c F (heap e) h"
    and "\<And>t. t < length (pool e) \<Longrightarrow> distinct (owns (pool e ! t))"
    and "\<And>t. t < length (pool e) \<Longrightarrow> loop_ok c F (heap e) (pool e ! t)"
    and "\<And>t h. t < length (pool e) \<Longrightarrow> h \<in> set (owns (pool e ! t)) \<Longrightarrow> h < next_handle e"
    and "\<And>t h. t < length (pool e) \<Longrightarrow> h \<in> set (owns (pool e ! t))
           \<Longrightarrow> state_ok c F (heap e) h"
    and "\<And>t h. t < length (pool e) \<Longrightarrow> h \<in> set (owns (pool e ! t))
           \<Longrightarrow> h \<notin> set (globalStateStack e)"
    and "\<And>t u h. t < length (pool e) \<Longrightarrow> u < length (pool e) \<Longrightarrow> u \<noteq> t
           \<Longrightarrow> h \<in> set (owns (pool e ! t)) \<Longrightarrow> h \<notin> set (owns (pool e ! u))"
  using assms unfolding wf_handles_def by blast+

lemma wf_handlesI:
  assumes "distinct (globalStateStack e)"
    and "\<And>h. h \<in> set (globalStateStack e) \<Longrightarrow> h < next_handle e \<and> state_ok c F (heap e) h"
    and "\<And>t. t < length (pool e) \<Longrightarrow>
           distinct (owns (pool e ! t)) \<and> loop_ok c F (heap e) (pool e ! t)"
    and "\<And>t h. t < length (pool e) \<Longrightarrow> h \<in> set (owns (pool e ! t))
           \<Longrightarrow> h < next_handle e \<and> state_ok c F (heap e) h \<and> h \<notin> set (globalStateStack e)"
    and "\<And>t u h. t < length (pool e) \<Longrightarrow> u < length (pool e) \<Longrightarrow> u \<noteq> t
           \<Longrightarrow> h \<in> set (owns (pool e ! t)) \<Longrightarrow> h \<notin> set (owns (pool e ! u))"
  shows "wf_handles c F e"
  unfolding wf_handles_def using assms by blast

lemma wf_handles_same:
  assumes "wf_handles c F e" and "t < length (pool e)"
    and "owns pc' = owns (pool e ! t)" and "loop_ok c F (heap e) pc'"
  shows "wf_handles c F (e\<lparr>pool := (pool e)[t := pc']\<rparr>)"
  using assms unfolding wf_handles_def
  by (auto simp: nth_list_update)

lemma wf_handles_step:
  assumes "wf_handles c F e" and "t < length (pool e)"
    and "wstep_pc c t (pool e ! t) e = Inr (a, pc', e')"
  shows "wf_handles c F (e'\<lparr>pool := (pool e')[t := pc']\<rparr>)"
  using assms(3)
proof (cases rule: wstep_pc_cases)
  case NoThread
  with assms(1,2) show ?thesis using wf_handles_same [of c F e t pc'] by simp
next
  case (GetBlocked u)
  with assms(1,2) show ?thesis using wf_handles_same [of c F e t pc'] by simp
next
  case PopEmpty
  with assms(1,2) show ?thesis using wf_handles_same [of c F e t pc'] by simp
next
  case (Pop res rest)
  with assms(1,2) show ?thesis
    unfolding wf_handles_def
    apply (simp add: nth_list_update)
    apply (intro conjI allI impI)
    apply auto
    done
next
  case (Inc res)
  have "wf_handles c F (e\<lparr>pool := (pool e)[t := pc']\<rparr>)"
    using wf_handles_same [of c F e t pc'] assms(1,2) Inc by simp
  with Inc show ?thesis by (simp add: wf_handles_def)
next
  case (Enter s)
  with assms(1,2) show ?thesis using wf_handles_same [of c F e t pc'] by simp
next
  case Spin
  with assms(1,2) show ?thesis using wf_handles_same [of c F e t pc'] by simp
next
  case Exit
  with assms(1,2) show ?thesis using wf_handles_same [of c F e t pc'] by simp
next
  case (Goal s st)
  have "wf_handles c F (e\<lparr>pool := (pool e)[t := pc']\<rparr>)"
    using wf_handles_same [of c F e t pc'] assms(1,2) Goal by simp
  with Goal show ?thesis by (simp add: wf_handles_def)
next
  case (Dead s st)
  with assms(1,2) show ?thesis using wf_handles_same [of c F e t pc'] by simp
next
  case (Expand s st)
  from assms(1,2) Expand have "state_ok c F (heap e) s"
    by (auto simp: wf_handles_def)
  with Expand have "finite_expansion c F st" by (simp add: state_ok_def)
  from expansion_unfold [OF this Expand(3) Expand(4)]
  have "loop_fin c F st (NULL_NODE c) (NULL_NODE c)" by simp
  with assms(1,2) Expand show ?thesis using wf_handles_same [of c F e t pc'] by simp
next
  case (Store s st)
  have "wf_handles c F (e\<lparr>pool := (pool e)[t := pc']\<rparr>)"
    using wf_handles_same [of c F e t pc'] assms(1,2) Store by simp
  with Store show ?thesis by (simp add: wf_handles_def)
next
  case (NoStore s)
  with assms(1,2) show ?thesis using wf_handles_same [of c F e t pc'] by simp
next
  case (NoVisit s)
  with assms(1,2) show ?thesis using wf_handles_same [of c F e t pc'] by simp
next
  case (Visit s v st)
  have "wf_handles c F (e\<lparr>pool := (pool e)[t := pc']\<rparr>)"
    using wf_handles_same [of c F e t pc'] assms(1,2) Visit by simp
  with Visit show ?thesis by (simp add: wf_handles_def)
next
  case (Exhausted s st n1 n2)
  with assms(1,2) show ?thesis using wf_handles_same [of c F e t pc'] by simp
next
  case (Skip s st n1 n2 m1 m2)
  from assms(1,2) Skip have "loop_fin c F st n1 n2"
    by (auto simp: wf_handles_def)
  from loop_next [OF this Skip(3)] have "loop_fin c F st m1 m2" by simp
  with assms(1,2) Skip show ?thesis using wf_handles_same [of c F e t pc'] by simp
next
  case (PutBlocked s s1 n1 n2 u)
  with assms(1,2) show ?thesis using list_update_id [of "pool e" t] by simp
next
  case (Return s r)
  with assms(1,2) show ?thesis using wf_handles_same [of c F e t pc'] by simp
next
  case Exited
  with assms(1,2) show ?thesis using wf_handles_same [of c F e t pc'] by simp
next
  case (Dec s)
  have "wf_handles c F (e\<lparr>pool := (pool e)[t := pc']\<rparr>)"
    using assms(1,2) Dec unfolding wf_handles_def by (auto simp: nth_list_update)
  with Dec show ?thesis by (simp add: wf_handles_def)
next
  case (Put s s1 n1 n2)
  with assms(1,2) show ?thesis
    unfolding wf_handles_def
    apply (simp add: nth_list_update)
    apply (intro conjI allI impI)
    apply auto
    done
next
  case (Delete s st)
  have a: "\<forall>h \<in> set (globalStateStack e). h \<noteq> s"
    using assms(1,2) Delete by (auto simp: wf_handles_def)
  have b: "\<forall>u < length (pool e). u \<noteq> t \<longrightarrow> s \<notin> set (owns (pool e ! u))"
  proof (intro allI impI)
    fix u assume "u < length (pool e)" "u \<noteq> t"
    with assms(1,2) have "set (owns (pool e ! t)) \<inter> set (owns (pool e ! u)) = {}"
      by (simp add: wf_handles_def)
    with Delete show "s \<notin> set (owns (pool e ! u))" by simp
  qed
  have c: "\<forall>u < length (pool e). u \<noteq> t \<longrightarrow> (\<forall>h \<in> set (owns (pool e ! u)). h \<noteq> s)"
    using b by blast
  from assms(1,2) Delete a b c show ?thesis
    unfolding wf_handles_def
    apply (simp add: nth_list_update)
    apply (intro conjI allI impI ballI)
    apply (simp_all add: state_ok_upd loop_ok_upd)
    done
next
  case (Alloc s st n1 n2 m1 m2)
  from assms(1,2) Alloc have lf: "loop_fin c F st n1 n2" and sn: "s < next_handle e"
    by (auto simp: wf_handles_def)
  from loop_next [OF lf Alloc(3)] Alloc(4)
  have l2: "loop_fin c F st m1 m2" and fe: "finite_expansion c F (AddPair c st m1 m2)"
    by simp_all
  note D = wf_handlesD [OF assms(1)]
  let ?nh = "next_handle e"
  let ?e' = "e'\<lparr>pool := (pool e')[t := pc']\<rparr>"
  have hp: "heap ?e' = (heap e)(?nh \<mapsto> AddPair c st m1 m2)" and
    nh: "next_handle ?e' = Suc ?nh" and
    st: "globalStateStack ?e' = globalStateStack e" and
    pl: "pool ?e' = (pool e)[t := W_Process s (P_Put ?nh m1 m2)]"
    using Alloc by simp_all
  have own_t: "owns (pool e ! t) = [s]" using Alloc by simp
  show ?thesis
  proof (rule wf_handlesI)
    show "distinct (globalStateStack ?e')" using D(1) st by simp
  next
    fix h assume "h \<in> set (globalStateStack ?e')"
    then have h: "h \<in> set (globalStateStack e)" using st by simp
    from D(2) [OF h] D(3) [OF h]
    show "h < next_handle ?e' \<and> state_ok c F (heap ?e') h"
      unfolding hp nh by (simp add: state_ok_upd)
  next
    fix u assume u: "u < length (pool ?e')"
    show "distinct (owns (pool ?e' ! u)) \<and> loop_ok c F (heap ?e') (pool ?e' ! u)"
    proof (cases "u = t")
      case True
      with u sn l2 Alloc(2) show ?thesis unfolding hp pl by simp
    next
      case False
      from u have u': "u < length (pool e)" unfolding pl by simp
      have "?nh \<notin> set (owns (pool e ! u))" using D(6) [OF u'] by blast
      with False u' D(4) [OF u'] D(5) [OF u'] show ?thesis
        unfolding hp pl by (simp add: loop_ok_upd)
    qed
  next
    fix u h assume u: "u < length (pool ?e')" and h: "h \<in> set (owns (pool ?e' ! u))"
    from u have u': "u < length (pool e)" unfolding pl by simp
    show "h < next_handle ?e' \<and> state_ok c F (heap ?e') h \<and> h \<notin> set (globalStateStack ?e')"
    proof (cases "u = t")
      case True
      with h u' have "h = s \<or> h = ?nh" unfolding pl by simp
      then show ?thesis
      proof
        assume "h = s"
        with sn D(7) [OF assms(2), of s] D(8) [OF assms(2), of s] own_t show ?thesis
          unfolding hp nh st by (simp add: state_ok_upd)
      next
        assume hn: "h = ?nh"
        have "?nh \<notin> set (globalStateStack e)" using D(2) by blast
        with hn fe show ?thesis unfolding hp nh st by (simp add: state_ok_def)
      qed
    next
      case False
      with h u' have h': "h \<in> set (owns (pool e ! u))" unfolding pl by simp
      from D(6) [OF u' h'] D(7) [OF u' h'] D(8) [OF u' h'] show ?thesis
        unfolding hp nh st by (simp add: state_ok_upd)
    qed
  next
    fix u v h assume u: "u < length (pool ?e')" and v: "v < length (pool ?e')"
      and vu: "v \<noteq> u" and h: "h \<in> set (owns (pool ?e' ! u))"
    from u v have u': "u < length (pool e)" and v': "v < length (pool e)"
      unfolding pl by simp_all
    show "h \<notin> set (owns (pool ?e' ! v))"
    proof (cases "u = t")
      case True
      with h u' have "h = s \<or> h = ?nh" unfolding pl by simp
      then show ?thesis
      proof
        assume "h = s"
        with D(9) [OF assms(2) v', of s] vu True own_t v' show ?thesis
          unfolding pl by simp
      next
        assume "h = ?nh"
        with D(6) [OF v'] vu True v' show ?thesis unfolding pl by auto
      qed
    next
      case False
      with h u' have h': "h \<in> set (owns (pool e ! u))" unfolding pl by simp
      show ?thesis
      proof (cases "v = t")
        case True
        have "h \<noteq> s" using D(9) [OF u' assms(2) _ h'] False own_t by auto
        moreover have "h \<noteq> ?nh" using D(6) [OF u' h'] by simp
        ultimately show ?thesis using True v' unfolding pl by simp
      next
        case False
        with D(9) [OF u' v' vu h'] v' show ?thesis unfolding pl by simp
      qed
    qed
  qed
qed

lemma wf_pending_step:
  assumes "wf_pending e" and "t < length (pool e)"
    and "wstep_pc c t (pool e ! t) e = Inr (a, pc', e')"
  shows "wf_pending (e'\<lparr>pool := (pool e')[t := pc']\<rparr>)"
proof -
  have keep: "wf_pending (e'\<lparr>pool := (pool e')[t := pc']\<rparr>)"
    if "pool e' = pool e" and "pending pc'"
    using that assms(2) unfolding wf_pending_def
    by (auto intro!: exI [of _ t])
  have same: "wf_pending (e'\<lparr>pool := (pool e')[t := pc']\<rparr>)"
    if "pool e' = pool e" and "globalStateStack e' = globalStateStack e"
      and "\<not> pending (pool e ! t)"
  proof -
    { assume "globalStateStack e \<noteq> []"
      with assms(1) obtain u where u: "u < length (pool e)" "pending (pool e ! u)"
        by (auto simp: wf_pending_def)
      with that(3) have "u \<noteq> t" by auto
      with u have "\<exists>u < length (pool e). pending ((pool e)[t := pc'] ! u)"
        by (auto intro!: exI [of _ u]) }
    with that show ?thesis by (auto simp: wf_pending_def)
  qed
  from assms(3) show ?thesis
  proof (cases rule: wstep_pc_cases)
    case NoThread
    then show ?thesis using same by simp
  next
    case PopEmpty
    then show ?thesis by (simp add: wf_pending_def)
  next
    case Exit
    then show ?thesis using same by simp
  next
    case Exited
    then show ?thesis using same by simp
  qed (use keep in simp_all)
qed

lemma wf_step:
  assumes "wf c F e" and "wf_pending e" and "wstep c t e = Inr (a, e')"
  shows "wf c F e' \<and> wf_pending e'"
proof (cases "t < length (pool e)")
  case False
  with assms show ?thesis by (simp add: wstep_def)
next
  case True
  with assms(3) obtain pc' e1 where
    s: "wstep_pc c t (pool e ! t) e = Inr (a, pc', e1)" and
    e': "e' = e1\<lparr>pool := (pool e1)[t := pc']\<rparr>"
    by (auto simp: wstep_def split: sum.splits)
  from assms(1) have "wf_handles c F e" "wf_mutex e" "wf_count e"
    by (simp_all add: wf_def)
  with wf_handles_step [OF _ True s] wf_mutex_step [OF _ True s] wf_count_step [OF _ True s]
    wf_pending_step [OF assms(2) True s] e'
  show ?thesis by (simp add: wf_def)
qed

lemma wf_no_error:
  assumes "wf c F e"
  shows "\<exists>a e'. wstep c t e = Inr (a, e')"
proof (cases "t < length (pool e)")
  case False
  then show ?thesis by (simp add: wstep_def)
next
  case True
  from assms have h: "wf_handles c F e" by (simp add: wf_def)
  have ok: "\<exists>st. heap e s = Some st" if "s \<in> set (owns (pool e ! t))" for s
    using wf_handlesD(7) [OF h True that] by (cases "heap e s") (simp_all add: state_ok_def)
  have "\<exists>a pc' e1. wstep_pc c t (pool e ! t) e = Inr (a, pc', e1)"
  proof (cases "pool e ! t")
    case (W_Process s ppc)
    with ok [of s] obtain st where "heap e s = Some st" by (cases ppc) auto
    with W_Process show ?thesis
      by (cases ppc) (auto split: option.splits prod.splits)
  next
    case (W_While x)
    then show ?thesis by (cases x) auto
  next
    case (W_Delete s)
    with ok [of s] show ?thesis by auto
  qed (auto split: option.splits list.splits)
  with True show ?thesis by (auto simp: wstep_def)
qed

lemma wf_exec:
  assumes "wf c F e" and "wf_pending e"
  shows "\<exists>tr e'. exec c sch e = Inr (tr, e') \<and> wf c F e' \<and> wf_pending e'"
  using assms
proof (induction sch arbitrary: e)
  case Nil
  then show ?case by simp
next
  case (Cons t ts)
  from wf_no_error [OF Cons.prems(1), of t] obtain a e1 where
    s: "wstep c t e = Inr (a, e1)" by blast
  from wf_step [OF Cons.prems s] Cons.IH [of e1] obtain tr e' where
    "exec c ts e1 = Inr (tr, e') \<and> wf c F e' \<and> wf_pending e'" by blast
  with s show ?case by simp
qed

lemma sum_list_update_frame:
  assumes "t < length xs"
    and "\<And>u. u < length xs \<Longrightarrow> u \<noteq> t \<Longrightarrow> f' (xs ! u) = f (xs ! u)"
  shows "sum_list (map f' (xs[t := y])) + f (xs ! t) = sum_list (map f xs) + (f' y :: nat)"
  using assms
proof (induction xs arbitrary: t)
  case Nil
  then show ?case by simp
next
  case (Cons x xs)
  show ?case
  proof (cases t)
    case 0
    have "map f' xs = map f xs"
    proof (rule nth_equalityI)
      show "length (map f' xs) = length (map f xs)" by simp
    next
      fix i assume "i < length (map f' xs)"
      then show "map f' xs ! i = map f xs ! i"
        using Cons.prems(2) [of "Suc i"] 0 by simp
    qed
    then have "sum_list (map f' xs) = sum_list (map f xs)" by (rule arg_cong)
    with 0 show ?thesis by simp
  next
    case (Suc j)
    have a: "f' x = f x" using Cons.prems(2) [of 0] Suc by simp
    have "sum_list (map f' (xs[j := y])) + f (xs ! j) = sum_list (map f xs) + f' y"
    proof (rule Cons.IH)
      show "j < length xs" using Cons.prems(1) Suc by simp
    next
      fix u assume "u < length xs" "u \<noteq> j"
      then show "f' (xs ! u) = f (xs ! u)"
        using Cons.prems(2) [of "Suc u"] Suc by simp
    qed
    with a Suc show ?thesis by simp
  qed
qed

lemma rem_work_frame:
  "(\<And>h. h \<in> set (owns pc) \<Longrightarrow> hp' h = hp h) \<Longrightarrow> rem_work c F hp' pc = rem_work c F hp pc"
  by (induction c F hp pc rule: rem_work.induct)
     (simp_all add: state_pwork_def state_loop_work_def)

lemma rem_goals_frame:
  "(\<And>h. h \<in> set (owns pc) \<Longrightarrow> hp' h = hp h) \<Longrightarrow> rem_goals c F hp' pc = rem_goals c F hp pc"
  by (induction c F hp pc rule: rem_goals.induct)
     (simp_all add: state_goals_def state_loop_goals_def)

text \<open>What a step leaves alone in the heap.\<close>

lemma step_heap_frame:
  assumes "wf_handles c F e" and "t < length (pool e)"
    and "wstep_pc c t (pool e ! t) e = Inr (a, pc', e')"
  shows "\<And>h. h \<in> set (globalStateStack e) \<Longrightarrow> heap e' h = heap e h"
    and "\<And>u h. u < length (pool e) \<Longrightarrow> u \<noteq> t \<Longrightarrow> h \<in> set (owns (pool e ! u))
           \<Longrightarrow> heap e' h = heap e h"
proof -
  note D = wf_handlesD [OF assms(1)]
  { fix h assume h: "h \<in> set (globalStateStack e)"
    from assms(3) show "heap e' h = heap e h"
    proof (cases rule: wstep_pc_cases)
      case (Alloc s st n1 n2 m1 m2)
      with D(2) [OF h] show ?thesis by simp
    next
      case (Delete s st)
      with D(8) [OF assms(2), of s] h show ?thesis by auto
    qed simp_all }
  { fix u h assume u: "u < length (pool e)" "u \<noteq> t" and h: "h \<in> set (owns (pool e ! u))"
    from assms(3) show "heap e' h = heap e h"
    proof (cases rule: wstep_pc_cases)
      case (Alloc s st n1 n2 m1 m2)
      with D(6) [OF u(1) h] show ?thesis by simp
    next
      case (Delete s st)
      with D(9) [OF assms(2) u(1) u(2), of s] h show ?thesis by auto
    qed simp_all }
qed

lemma pool_frame:
  assumes "wf_handles c F e" and "t < length (pool e)"
    and "wstep_pc c t (pool e ! t) e = Inr (a, pc', e')"
    and fr: "\<And>hp hp' pc. (\<And>h. h \<in> set (owns pc) \<Longrightarrow> hp' h = hp h) \<Longrightarrow> f hp' pc = (f hp pc :: nat)"
  shows "sum_list (map (f (heap e')) ((pool e)[t := pc'])) + f (heap e) (pool e ! t) =
         sum_list (map (f (heap e)) (pool e)) + f (heap e') pc'"
proof (rule sum_list_update_frame [OF assms(2)])
  fix u assume u: "u < length (pool e)" "u \<noteq> t"
  show "f (heap e') (pool e ! u) = f (heap e) (pool e ! u)"
    by (rule fr) (rule step_heap_frame(2) [OF assms(1,2,3) u])
qed

lemma stack_frame:
  assumes "wf_handles c F e" and "t < length (pool e)"
    and "wstep_pc c t (pool e ! t) e = Inr (a, pc', e')"
    and fr: "\<And>hp hp' h. hp' h = hp h \<Longrightarrow> g hp' h = (g hp h :: nat)"
  shows "sum_list (map (g (heap e')) (globalStateStack e)) =
         sum_list (map (g (heap e)) (globalStateStack e))"
proof (rule arg_cong [where f = sum_list], rule map_cong [OF refl])
  fix h assume "h \<in> set (globalStateStack e)"
  from step_heap_frame(1) [OF assms(1,2,3) this] show "g (heap e') h = g (heap e) h"
    by (rule fr)
qed

lemma step_pool_same:
  assumes "wstep_pc c t pc e = Inr (a, pc', e')"
  shows "pool e' = pool e"
  using assms by (cases rule: wstep_pc_cases) simp_all

lemma mu_step:
  assumes "wf_handles c F e" and "t < length (pool e)"
    and "wstep_pc c t (pool e ! t) e = Inr (a, pc', e')"
  shows "mu c F (e'\<lparr>pool := (pool e')[t := pc']\<rparr>) + (if quiet a then 0 else 1) = mu c F e"
proof -
  note D = wf_handlesD [OF assms(1)]
  let ?g = "\<lambda>hp h. 3 + state_pwork c F hp h"
  have P: "sum_list (map (rem_work c F (heap e')) ((pool e)[t := pc'])) +
      rem_work c F (heap e) (pool e ! t) =
      sum_list (map (rem_work c F (heap e)) (pool e)) + rem_work c F (heap e') pc'"
    by (rule pool_frame [OF assms]) (rule rem_work_frame)
  have S: "sum_list (map (?g (heap e')) (globalStateStack e)) =
      sum_list (map (?g (heap e)) (globalStateStack e))"
    by (rule stack_frame [OF assms]) (simp add: state_pwork_def)
  have ps: "pool e' = pool e" by (rule step_pool_same [OF assms(3)])
  have ok: "\<And>h. h \<in> set (owns (pool e ! t)) \<Longrightarrow> state_ok c F (heap e) h"
    using D(7) [OF assms(2)] .
  have lk: "loop_ok c F (heap e) (pool e ! t)" using D(5) [OF assms(2)] .
  from assms(3) show ?thesis
  proof (cases rule: wstep_pc_cases)
    case (Pop res rest)
    with P S ps show ?thesis by (simp add: mu_def)
  next
    case (Put s s1 n1 n2)
    with P S ps show ?thesis by (simp add: mu_def state_loop_work_def)
  next
    case (Goal s st)
    with ok [of s] have "pwork c F st = 6"
      by (cases F) (simp_all add: state_ok_def)
    with Goal P S ps show ?thesis by (simp add: mu_def state_pwork_def)
  next
    case (Dead s st)
    with ok [of s] have "pwork c F st = 4"
      by (cases F) (simp_all add: state_ok_def)
    with Dead P S ps show ?thesis by (simp add: mu_def state_pwork_def)
  next
    case (Expand s st)
    with ok [of s] have "finite_expansion c F st" by (simp add: state_ok_def)
    from expansion_unfold [OF this Expand(3,4)]
    have "pwork c F st = 4 + loop_work c F st (NULL_NODE c) (NULL_NODE c)" by simp
    with Expand P S ps show ?thesis
      by (simp add: mu_def state_pwork_def state_loop_work_def)
  next
    case (Exhausted s st n1 n2)
    with lk have "loop_fin c F st n1 n2" by simp
    from loop_exhausted [OF this Exhausted(3)] Exhausted P S ps show ?thesis
      by (simp add: mu_def state_loop_work_def)
  next
    case (Skip s st n1 n2 m1 m2)
    with lk have "loop_fin c F st n1 n2" by simp
    from loop_next [OF this Skip(3)] Skip P S ps show ?thesis
      by (simp add: mu_def state_loop_work_def)
  next
    case (Alloc s st n1 n2 m1 m2)
    with lk have "loop_fin c F st n1 n2" by simp
    from loop_next [OF this Alloc(3)] Alloc(4)
    have w: "loop_work c F st n1 n2 = 5 + pwork c F (AddPair c st m1 m2) + loop_work c F st m1 m2"
      by simp
    have "s \<noteq> next_handle e" using D(6) [OF assms(2), of s] Alloc(1) by simp
    with w Alloc P S ps show ?thesis
      by (simp add: mu_def state_loop_work_def state_pwork_def)
  qed (use P S ps in \<open>simp_all add: mu_def\<close>)
qed

lemma goals_step:
  assumes "wf_handles c F e" and "t < length (pool e)"
    and "wstep_pc c t (pool e ! t) e = Inr (a, pc', e')"
  shows "pending_goals c F (e'\<lparr>pool := (pool e')[t := pc']\<rparr>) + counts a = pending_goals c F e"
proof -
  note D = wf_handlesD [OF assms(1)]
  have P: "sum_list (map (rem_goals c F (heap e')) ((pool e)[t := pc'])) +
      rem_goals c F (heap e) (pool e ! t) =
      sum_list (map (rem_goals c F (heap e)) (pool e)) + rem_goals c F (heap e') pc'"
    by (rule pool_frame [OF assms]) (rule rem_goals_frame)
  have S: "sum_list (map (state_goals c F (heap e')) (globalStateStack e)) =
      sum_list (map (state_goals c F (heap e)) (globalStateStack e))"
    by (rule stack_frame [OF assms]) (simp add: state_goals_def)
  have ps: "pool e' = pool e" by (rule step_pool_same [OF assms(3)])
  have ok: "\<And>h. h \<in> set (owns (pool e ! t)) \<Longrightarrow> state_ok c F (heap e) h"
    using D(7) [OF assms(2)] .
  have lk: "loop_ok c F (heap e) (pool e ! t)" using D(5) [OF assms(2)] .
  from assms(3) show ?thesis
  proof (cases rule: wstep_pc_cases)
    case (Pop res rest)
    with P S ps show ?thesis by (simp add: pending_goals_def)
  next
    case (Put s s1 n1 n2)
    with P S ps show ?thesis by (simp add: pending_goals_def state_loop_goals_def)
  next
    case (Goal s st)
    with ok [of s] have "goal_count c F st = 1"
      by (cases F) (simp_all add: state_ok_def)
    with Goal P S ps show ?thesis by (simp add: pending_goals_def state_goals_def)
  next
    case (Dead s st)
    with ok [of s] have "goal_count c F st = 0"
      by (cases F) (simp_all add: state_ok_def)
    with Dead P S ps show ?thesis by (simp add: pending_goals_def state_goals_def)
  next
    case (Expand s st)
    with ok [of s] have "finite_expansion c F st" by (simp add: state_ok_def)
    from expansion_unfold [OF this Expand(3,4)]
    have "goal_count c F st = loop_goals c F st (NULL_NODE c) (NULL_NODE c)" by simp
    with Expand P S ps show ?thesis
      by (simp add: pending_goals_def state_goals_def state_loop_goals_def)
  next
    case (Exhausted s st n1 n2)
    with lk have "loop_fin c F st n1 n2" by simp
    from loop_exhausted [OF this Exhausted(3)] Exhausted P S ps show ?thesis
      by (simp add: pending_goals_def state_loop_goals_def)
  next
    case (Skip s st n1 n2 m1 m2)
    with lk have "loop_fin c F st n1 n2" by simp
    from loop_next [OF this Skip(3)] Skip P S ps show ?thesis
      by (simp add: pending_goals_def state_loop_goals_def)
  next
    case (Alloc s st n1 n2 m1 m2)
    with lk have "loop_fin c F st n1 n2" by simp
    from loop_next [OF this Alloc(3)] Alloc(4)
    have w: "loop_goals c F st n1 n2 =
        goal_count c F (AddPair c st m1 m2) + loop_goals c F st m1 m2"
      by simp
    have "s \<noteq> next_handle e" using D(6) [OF assms(2), of s] Alloc(1) by simp
    with w Alloc P S ps show ?thesis
      by (simp add: pending_goals_def state_loop_goals_def state_goals_def)
  qed (use P S ps in \<open>simp_all add: pending_goals_def\<close>)
qed

lemma count_step:
  assumes "wstep_pc c t pc e = Inr (a, pc', e')"
  shows "solCount e' = solCount e + of_nat (counts a)"
  using assms by (cases rule: wstep_pc_cases) simp_all

lemma stores_step:
  assumes "t < length (pool e)"
    and "wstep_pc c t (pool e ! t) e = Inr (a, pc', e')"
  shows "storeSolutions e \<longrightarrow>
           length (solutions e') + pending_stores (e'\<lparr>pool := (pool e')[t := pc']\<rparr>) =
           length (solutions e) + pending_stores e + counts a"
    and "\<not> storeSolutions e \<longrightarrow> solutions e' = solutions e"
proof -
  have P: "sum_list (map storing ((pool e)[t := pc'])) + storing (pool e ! t) =
      sum_list (map storing (pool e)) + storing pc'"
    by (rule sum_list_update_frame [OF assms(1)]) simp
  have ps: "pool e' = pool e" by (rule step_pool_same [OF assms(2)])
  from assms(2) show "storeSolutions e \<longrightarrow>
           length (solutions e') + pending_stores (e'\<lparr>pool := (pool e')[t := pc']\<rparr>) =
           length (solutions e) + pending_stores e + counts a"
    using P ps by (cases rule: wstep_pc_cases) (simp_all add: pending_stores_def)
  from assms(2) show "\<not> storeSolutions e \<longrightarrow> solutions e' = solutions e"
    by (cases rule: wstep_pc_cases) simp_all
qed

lemma config_step:
  assumes "wstep_pc c t pc e = Inr (a, pc', e')"
  shows "storeSolutions e' = storeSolutions e \<and> visit e' = visit e \<and>
         numThreads e' = numThreads e \<and> cpu e' = cpu e \<and> next_handle e \<le> next_handle e'"
  using assms by (cases rule: wstep_pc_cases) simp_all

lemma run_Suc_Inr:
  assumes "run c sched k e0 = Inr e" and "wstep c (sched k) e = Inr (a, e')"
  shows "run c sched (Suc k) e0 = Inr e'"
  using assms by simp

lemma fair_decrease:
  fixes M :: "('s, 'n, 'sol, 'v) engine \<Rightarrow> nat"
  assumes inv: "\<And>e u a e'. P e \<Longrightarrow> wstep c u e = Inr (a, e') \<Longrightarrow> P e'"
    and noerr: "\<And>e u. P e \<Longrightarrow> \<exists>a e'. wstep c u e = Inr (a, e')"
    and mono: "\<And>e u a e'. P e \<Longrightarrow> wstep c u e = Inr (a, e') \<Longrightarrow> M e' \<le> M e"
    and dec: "\<And>e t a e'. P e \<Longrightarrow> H e t \<Longrightarrow> wstep c t e = Inr (a, e') \<Longrightarrow> M e' < M e"
    and keep: "\<And>e t u a e'. P e \<Longrightarrow> H e t \<Longrightarrow> u \<noteq> t \<Longrightarrow> wstep c u e = Inr (a, e')
                 \<Longrightarrow> M e' = M e \<Longrightarrow> H e' t"
    and at_j: "sched j = t" and le: "i \<le> j"
    and start: "run c sched i e0 = Inr e" "P e" "H e t"
  shows "\<exists>k e'. i < k \<and> run c sched k e0 = Inr e' \<and> P e' \<and> M e' < M e"
  using le start
proof (induction "j - i" arbitrary: i e)
  case 0
  then have ij: "sched i = t" using at_j by simp
  from noerr [OF 0(4), of t] obtain a e' where s: "wstep c t e = Inr (a, e')" by blast
  from run_Suc_Inr [OF 0(3), of a e'] s ij have "run c sched (Suc i) e0 = Inr e'" by simp
  with inv [OF 0(4) s] dec [OF 0(4) 0(5) s] show ?case by blast
next
  case (Suc d)
  show ?case
  proof (cases "sched i = t")
    case True
    from noerr [OF Suc(5), of t] obtain a e' where s: "wstep c t e = Inr (a, e')" by blast
    from run_Suc_Inr [OF Suc(4), of a e'] s True have "run c sched (Suc i) e0 = Inr e'" by simp
    with inv [OF Suc(5) s] dec [OF Suc(5) Suc(6) s] show ?thesis by blast
  next
    case False
    from noerr [OF Suc(5), of "sched i"] obtain a e1 where
      s: "wstep c (sched i) e = Inr (a, e1)" by blast
    have r1: "run c sched (Suc i) e0 = Inr e1" using run_Suc_Inr [OF Suc(4) s] .
    have p1: "P e1" using inv [OF Suc(5) s] .
    have m1: "M e1 \<le> M e" using mono [OF Suc(5) s] .
    show ?thesis
    proof (cases "M e1 < M e")
      case True
      with r1 p1 show ?thesis by blast
    next
      case F2: False
      with m1 have eq: "M e1 = M e" by simp
      have h1: "H e1 t" using keep [OF Suc(5) Suc(6) False s eq] .
      have "i \<noteq> j" using False at_j by auto
      with Suc(3) have le1: "Suc i \<le> j" by simp
      have d: "d = j - Suc i" using Suc(2) by simp
      from Suc(1) [OF d le1 r1 p1 h1] obtain k e' where
        "Suc i < k" "run c sched k e0 = Inr e'" "P e'" "M e' < M e1" by blast
      with eq show ?thesis by (intro exI [of _ k] exI [of _ e']) simp
    qed
  qed
qed

lemma fair_zero:
  fixes M :: "('s, 'n, 'sol, 'v) engine \<Rightarrow> nat"
  assumes inv: "\<And>e u a e'. P e \<Longrightarrow> wstep c u e = Inr (a, e') \<Longrightarrow> P e'"
    and noerr: "\<And>e u. P e \<Longrightarrow> \<exists>a e'. wstep c u e = Inr (a, e')"
    and mono: "\<And>e u a e'. P e \<Longrightarrow> wstep c u e = Inr (a, e') \<Longrightarrow> M e' \<le> M e"
    and dec: "\<And>e t a e'. P e \<Longrightarrow> H e t \<Longrightarrow> wstep c t e = Inr (a, e') \<Longrightarrow> M e' < M e"
    and keep: "\<And>e t u a e'. P e \<Longrightarrow> H e t \<Longrightarrow> u \<noteq> t \<Longrightarrow> wstep c u e = Inr (a, e')
                 \<Longrightarrow> M e' = M e \<Longrightarrow> H e' t"
    and ex: "\<And>e. P e \<Longrightarrow> 0 < M e \<Longrightarrow> \<exists>t < n. H e t"
    and fair: "fair n sched"
    and start: "run c sched i e0 = Inr e" "P e"
  shows "\<exists>k e'. i \<le> k \<and> run c sched k e0 = Inr e' \<and> P e' \<and> M e' = 0"
  using start
proof (induction "M e" arbitrary: i e rule: less_induct)
  case less
  show ?case
  proof (cases "M e = 0")
    case True
    with less(2,3) show ?thesis by blast
  next
    case False
    with ex [OF less(3)] obtain t where t: "t < n" "H e t" by auto
    from fair t(1) obtain j where j: "i \<le> j" "sched j = t" by (auto simp: fair_def)
    have "\<exists>k e1. i < k \<and> run c sched k e0 = Inr e1 \<and> P e1 \<and> M e1 < M e"
    proof (rule fair_decrease [where P = P and H = H and M = M,
          OF _ _ _ _ _ j(2) j(1) less(2,3) t(2)])
      show "\<And>e u a e'. P e \<Longrightarrow> wstep c u e = Inr (a, e') \<Longrightarrow> P e'" by (rule inv)
      show "\<And>e u. P e \<Longrightarrow> \<exists>a e'. wstep c u e = Inr (a, e')" by (rule noerr)
      show "\<And>e u a e'. P e \<Longrightarrow> wstep c u e = Inr (a, e') \<Longrightarrow> M e' \<le> M e" by (rule mono)
      show "\<And>e t a e'. P e \<Longrightarrow> H e t \<Longrightarrow> wstep c t e = Inr (a, e') \<Longrightarrow> M e' < M e"
        by (rule dec)
      show "\<And>e t u a e'. P e \<Longrightarrow> H e t \<Longrightarrow> u \<noteq> t \<Longrightarrow> wstep c u e = Inr (a, e')
                 \<Longrightarrow> M e' = M e \<Longrightarrow> H e' t"
        by (rule keep)
    qed
    then obtain k e1 where k: "i < k" "run c sched k e0 = Inr e1" "P e1" "M e1 < M e" by blast
    from less(1) [OF k(4) k(2) k(3)] obtain k' e' where
      "k \<le> k'" "run c sched k' e0 = Inr e'" "P e'" "M e' = 0" by blast
    with k(1) show ?thesis by (intro exI [of _ k'] exI [of _ e']) simp
  qed
qed

lemma wstep_cases:
  assumes "wstep c t e = Inr (a, e')"
  obtains "\<not> t < length (pool e)" "a = Idle" "e' = e"
  | pc' e1 where "t < length (pool e)" "wstep_pc c t (pool e ! t) e = Inr (a, pc', e1)"
      "e' = e1\<lparr>pool := (pool e1)[t := pc']\<rparr>"
  using assms by (auto simp: wstep_def split: if_splits sum.splits)

lemma wstep_pool:
  assumes "wstep c u e = Inr (a, e')"
  shows "length (pool e') = length (pool e)" and "t \<noteq> u \<Longrightarrow> pool e' ! t = pool e ! t"
proof -
  from assms show "length (pool e') = length (pool e)"
    by (cases rule: wstep_cases) (simp_all add: step_pool_same)
  assume "t \<noteq> u"
  with assms show "pool e' ! t = pool e ! t"
    by (cases rule: wstep_cases) (simp_all add: step_pool_same)
qed

lemma wstep_effect:
  assumes "good c F e" and "wstep c t e = Inr (a, e')"
  shows "good c F e'"
    and "mu c F e' + (if quiet a then 0 else 1) = mu c F e"
    and "pending_goals c F e' + counts a = pending_goals c F e"
    and "solCount e' = solCount e + of_nat (counts a)"
    and "storeSolutions e \<longrightarrow>
           length (solutions e') + pending_stores e' =
           length (solutions e) + pending_stores e + counts a"
    and "\<not> storeSolutions e \<longrightarrow> solutions e' = solutions e"
    and "storeSolutions e' = storeSolutions e"
proof -
  from assms(1) have w: "wf c F e" and p: "wf_pending e" and h: "wf_handles c F e"
    by (simp_all add: good_def wf_def)
  from wf_step [OF w p assms(2)] show "good c F e'" by (simp add: good_def)
  from assms(2) show "mu c F e' + (if quiet a then 0 else 1) = mu c F e"
    by (cases rule: wstep_cases) (use mu_step [OF h] in simp_all)
  from assms(2) show "pending_goals c F e' + counts a = pending_goals c F e"
    by (cases rule: wstep_cases) (use goals_step [OF h] in simp_all)
  from assms(2) show "solCount e' = solCount e + of_nat (counts a)"
    by (cases rule: wstep_cases) (use count_step in simp_all)
  from assms(2) show "storeSolutions e \<longrightarrow>
           length (solutions e') + pending_stores e' =
           length (solutions e) + pending_stores e + counts a"
    by (cases rule: wstep_cases) (use stores_step(1) in simp_all)
  from assms(2) show "\<not> storeSolutions e \<longrightarrow> solutions e' = solutions e"
    by (cases rule: wstep_cases) (use stores_step(2) in simp_all)
  from assms(2) show "storeSolutions e' = storeSolutions e"
    by (cases rule: wstep_cases) (auto dest: config_step)
qed

lemma helpful_dec:
  assumes "good c F e" and "helpful e t" and "wstep c t e = Inr (a, e')"
  shows "\<not> quiet a"
proof -
  from assms(1) have m: "wf_mutex e" by (simp add: good_def wf_def)
  from assms(2) have t: "t < length (pool e)" by (simp add: helpful_def)
  from assms(3) show ?thesis
  proof (cases rule: wstep_cases)
    case 1
    with t show ?thesis by simp
  next
    case (2 pc' e1)
    from 2(2) show ?thesis
    proof (cases rule: wstep_pc_cases)
      case NoThread
      with assms(2) m t show ?thesis
        by (auto simp: helpful_def wf_mutex_def split: option.splits)
    next
      case (GetBlocked u)
      with assms(2) m t show ?thesis
        by (auto simp: helpful_def wf_mutex_def split: option.splits)
    next
      case PopEmpty
      with assms(2) m t show ?thesis
        by (auto simp: helpful_def wf_mutex_def split: option.splits)
    next
      case Spin
      with assms(2) m t show ?thesis
        by (auto simp: helpful_def wf_mutex_def split: option.splits)
    next
      case Exit
      with assms(2) m t show ?thesis
        by (auto simp: helpful_def wf_mutex_def split: option.splits)
    next
      case (PutBlocked s s1 n1 n2 u)
      with assms(2) m t show ?thesis
        by (auto simp: helpful_def wf_mutex_def split: option.splits)
    next
      case Exited
      with assms(2) m t show ?thesis
        by (auto simp: helpful_def wf_mutex_def split: option.splits)
    qed simp_all
  qed
qed

lemma quiet_same:
  assumes "wstep c u e = Inr (a, e')" and "quiet a"
  shows "statesMutex e' = statesMutex e \<and> globalStateStack e' = globalStateStack e"
  using assms(1)
proof (cases rule: wstep_cases)
  case 1
  then show ?thesis by simp
next
  case (2 pc' e1)
  from 2(2) assms(2) have "e1 = e" by (cases rule: wstep_pc_cases) simp_all
  with 2 show ?thesis by simp
qed

lemma helpful_keep:
  assumes "helpful e t" and "u \<noteq> t" and "wstep c u e = Inr (a, e')" and "quiet a"
  shows "helpful e' t"
  using assms(1) quiet_same [OF assms(3,4)] wstep_pool(2) [OF assms(3), of t] wstep_pool(1) [OF assms(3)] assms(2)
  by (auto simp: helpful_def split: option.splits)

lemma rem_work_inactive: "\<not> active pc \<Longrightarrow> rem_work c F hp pc = 0"
  by (cases pc rule: active.cases) simp_all

lemma helpful_ex:
  assumes "good c F e" and "0 < mu c F e"
  shows "\<exists>t < length (pool e). helpful e t"
proof (cases "statesMutex e")
  case (Some u)
  with assms(1) have "u < length (pool e)" by (simp add: good_def wf_def wf_mutex_def)
  with Some show ?thesis by (auto simp: helpful_def)
next
  case None
  show ?thesis
  proof (cases "\<exists>t < length (pool e). active (pool e ! t)")
    case True
    with None show ?thesis by (auto simp: helpful_def)
  next
    case False
    then have "\<forall>pc \<in> set (pool e). rem_work c F (heap e) pc = 0"
      by (auto simp: in_set_conv_nth rem_work_inactive)
    then have "sum_list (map (rem_work c F (heap e)) (pool e)) = 0" by simp
    with assms(2) have ne: "globalStateStack e \<noteq> []" by (auto simp: mu_def)
    with assms(1) obtain t where t: "t < length (pool e)" "pending (pool e ! t)"
      by (auto simp: good_def wf_pending_def)
    with False have "pool e ! t = W_GetState"
      by (cases "pool e ! t" rule: active.cases) auto
    with t ne None show ?thesis by (auto simp: helpful_def)
  qed
qed

lemma reach_quiescent:
  assumes "good c F e0" and "fair (length (pool e0)) sched"
  shows "\<exists>k e. run c sched k e0 = Inr e \<and> good c F e \<and>
           length (pool e) = length (pool e0) \<and> mu c F e = 0"
proof -
  let ?n = "length (pool e0)"
  let ?P = "\<lambda>e. good c F e \<and> length (pool e) = ?n"
  have "\<exists>k e'. 0 \<le> k \<and> run c sched k e0 = Inr e' \<and> ?P e' \<and> mu c F e' = 0"
  proof (rule fair_zero [where P = ?P and H = helpful and M = "mu c F" and n = ?n and e = e0])
    fix e u a e' assume "?P e" and s: "wstep c u e = Inr (a, e')"
    then show "?P e'" using wstep_effect(1) [OF _ s] wstep_pool(1) [OF s] by simp
  next
    fix e u assume "?P e"
    then show "\<exists>a e'. wstep c u e = Inr (a, e')"
      using wf_no_error [of c F e u] by (simp add: good_def)
  next
    fix e u a e' assume "?P e" and s: "wstep c u e = Inr (a, e')"
    then show "mu c F e' \<le> mu c F e" using wstep_effect(2) [OF _ s, where F = F] by simp
  next
    fix e t a e' assume p: "?P e" and h: "helpful e t" and s: "wstep c t e = Inr (a, e')"
    from p have g: "good c F e" by simp
    from helpful_dec [OF g h s] wstep_effect(2) [OF g s]
    show "mu c F e' < mu c F e" by simp
  next
    fix e t u a e'
    assume p: "?P e" and h: "helpful e t" and ut: "u \<noteq> t"
      and s: "wstep c u e = Inr (a, e')" and eq: "mu c F e' = mu c F e"
    from p have g: "good c F e" by simp
    from wstep_effect(2) [OF g s] eq have "quiet a" by (cases "quiet a") simp_all
    from helpful_keep [OF h ut s this] show "helpful e' t" .
  next
    fix e assume "?P e" and "0 < mu c F e"
    then show "\<exists>t < ?n. helpful e t" using helpful_ex [of c F e] by auto
  next
    show "fair ?n sched" by (rule assms(2))
  next
    show "run c sched 0 e0 = Inr e0" by simp
  next
    show "?P e0" using assms(1) by simp
  qed
  then show ?thesis by blast
qed

lemma pwork_pos: "finite_expansion c F st \<Longrightarrow> 0 < pwork c F st"
  by (cases F) (auto split: option.splits)

lemma rem_work_active:
  assumes "active pc" and "\<And>h. h \<in> set (owns pc) \<Longrightarrow> state_ok c F hp h"
  shows "0 < rem_work c F hp pc"
proof (cases pc)
  case (W_Process s ppc)
  show ?thesis
  proof (cases ppc)
    case P_Entry
    with W_Process assms(2) [of s] show ?thesis
      by (auto simp: state_ok_def state_pwork_def pwork_pos split: option.splits)
  qed (use W_Process in simp_all)
next
  case (W_While x)
  with assms(1) show ?thesis by (cases x) simp_all
qed (use assms(1) in simp_all)

lemma quiescent_facts:
  assumes "good c F e" and "mu c F e = 0"
  shows "globalStateStack e = []" and "\<And>t. t < length (pool e) \<Longrightarrow> \<not> active (pool e ! t)"
    and "statesMutex e = None" and "activeWorkerCount e = 0"
proof -
  from assms(1) have h: "wf_handles c F e" and m: "wf_mutex e" and k: "wf_count e"
    by (simp_all add: good_def wf_def)
  from assms(2) have st: "sum_list (map (\<lambda>h. 3 + state_pwork c F (heap e) h) (globalStateStack e)) = 0"
    and pl: "sum_list (map (rem_work c F (heap e)) (pool e)) = 0"
    by (simp_all add: mu_def)
  from st show s0: "globalStateStack e = []" by (cases "globalStateStack e") simp_all
  show na: "\<not> active (pool e ! t)" if t: "t < length (pool e)" for t
  proof
    assume a: "active (pool e ! t)"
    have "0 < rem_work c F (heap e) (pool e ! t)"
      by (rule rem_work_active [OF a]) (rule wf_handlesD(7) [OF h t])
    moreover have "rem_work c F (heap e) (pool e ! t) = 0"
      using pl t by simp
    ultimately show False by simp
  qed
  show "statesMutex e = None"
  proof (cases "statesMutex e")
    case (Some u)
    with m have "u < length (pool e)" "is_locked (pool e ! u)" by (simp_all add: wf_mutex_def)
    with na [of u] show ?thesis by (cases "pool e ! u") simp_all
  qed simp
  have "filter credit (pool e) = []"
  proof (rule filter_False, rule ballI)
    fix pc assume "pc \<in> set (pool e)"
    then obtain t where "t < length (pool e)" "pool e ! t = pc" by (auto simp: in_set_conv_nth)
    with na [of t] show "\<not> credit pc" by (cases pc rule: credit.cases) auto
  qed
  with k show "activeWorkerCount e = 0" by (simp add: wf_count_def)
qed

lemma nu_step:
  assumes "good c F e" and "mu c F e = 0" and "wstep c t e = Inr (a, e')"
  shows "nu e' \<le> nu e" and "t < length (pool e) \<Longrightarrow> \<not> finished (pool e ! t) \<Longrightarrow> nu e' < nu e"
proof -
  note Q = quiescent_facts [OF assms(1,2)]
  have "nu e' \<le> nu e \<and> (t < length (pool e) \<longrightarrow> \<not> finished (pool e ! t) \<longrightarrow> nu e' < nu e)"
    using assms(3)
  proof (cases rule: wstep_cases)
    case 1
    then show ?thesis by simp
  next
    case (2 pc' e1)
    have P: "sum_list (map idle_rank ((pool e)[t := pc'])) + idle_rank (pool e ! t) =
        sum_list (map idle_rank (pool e)) + idle_rank pc'"
      by (rule sum_list_update_frame [OF 2(1)]) simp
    have ps: "pool e1 = pool e" by (rule step_pool_same [OF 2(2)])
    from 2(2) show ?thesis
      using P ps 2(3) Q(1) Q(2) [OF 2(1)] Q(3) Q(4)
      by (cases rule: wstep_pc_cases) (simp_all add: nu_def finished_def)
  qed
  then show "nu e' \<le> nu e"
    and "t < length (pool e) \<Longrightarrow> \<not> finished (pool e ! t) \<Longrightarrow> nu e' < nu e"
    by simp_all
qed

lemma nu_zero_finished:
  assumes "good c F e" and "mu c F e = 0" and "nu e = 0"
  shows "list_all finished (pool e)"
proof -
  note Q = quiescent_facts [OF assms(1,2)]
  { fix pc assume "pc \<in> set (pool e)"
    then obtain t where t: "t < length (pool e)" "pool e ! t = pc"
      by (auto simp: in_set_conv_nth)
    from assms(3) t have "idle_rank pc = 0" by (auto simp: nu_def)
    with Q(2) [OF t(1)] t(2) have "finished pc"
      by (cases pc rule: idle_rank.cases) (auto simp: finished_def) }
  then show ?thesis by (simp add: list_all_iff)
qed

lemma run_terminates:
  assumes "good c F e0" and "fair (length (pool e0)) sched"
  shows "\<exists>k e. run c sched k e0 = Inr e \<and> good c F e \<and>
           length (pool e) = length (pool e0) \<and> list_all finished (pool e)"
proof -
  let ?n = "length (pool e0)"
  from reach_quiescent [OF assms] obtain i e1 where
    r1: "run c sched i e0 = Inr e1" and g1: "good c F e1" and
    l1: "length (pool e1) = ?n" and m1: "mu c F e1 = 0"
    by blast
  let ?P = "\<lambda>e. good c F e \<and> mu c F e = 0 \<and> length (pool e) = ?n"
  let ?H = "\<lambda>e t. t < length (pool e) \<and> \<not> finished (pool e ! t)"
  have "\<exists>k e'. i \<le> k \<and> run c sched k e0 = Inr e' \<and> ?P e' \<and> nu e' = 0"
  proof (rule fair_zero [where P = ?P and H = ?H and M = nu and n = ?n and e = e1])
    fix e u a e' assume p: "?P e" and s: "wstep c u e = Inr (a, e')"
    then have g: "good c F e" by simp
    from wstep_effect(1,2) [OF g s] wstep_pool(1) [OF s] p show "?P e'" by simp
  next
    fix e u assume "?P e"
    then show "\<exists>a e'. wstep c u e = Inr (a, e')"
      using wf_no_error [of c F e u] by (simp add: good_def)
  next
    fix e u a e' assume p: "?P e" and s: "wstep c u e = Inr (a, e')"
    then have g: "good c F e" and m: "mu c F e = 0" by simp_all
    from nu_step(1) [OF g m s] show "nu e' \<le> nu e" .
  next
    fix e t a e' assume p: "?P e" and h: "?H e t" and s: "wstep c t e = Inr (a, e')"
    then have g: "good c F e" and m: "mu c F e = 0" by simp_all
    from nu_step(2) [OF g m s] h show "nu e' < nu e" by simp
  next
    fix e t u a e'
    assume "?P e" and h: "?H e t" and ut: "u \<noteq> t" and s: "wstep c u e = Inr (a, e')"
    with wstep_pool(1) [OF s] wstep_pool(2) [OF s, of t] show "?H e' t" by auto
  next
    fix e assume p: "?P e" and pos: "0 < nu e"
    have "\<not> (\<forall>pc \<in> set (pool e). finished pc)"
    proof
      assume "\<forall>pc \<in> set (pool e). finished pc"
      then have "\<forall>pc \<in> set (pool e). idle_rank pc = 0" by (auto simp: finished_def)
      then have "nu e = 0" by (simp add: nu_def)
      with pos show False by simp
    qed
    then obtain t where "t < length (pool e)" "\<not> finished (pool e ! t)"
      by (auto simp: in_set_conv_nth)
    with p show "\<exists>t < ?n. ?H e t" by auto
  next
    show "fair ?n sched" by (rule assms(2))
  next
    show "run c sched i e0 = Inr e1" by (rule r1)
  next
    show "?P e1" using g1 m1 l1 by simp
  qed
  then obtain k e where "run c sched k e0 = Inr e" "good c F e" "mu c F e = 0"
    "length (pool e) = ?n" "nu e = 0" by blast
  with nu_zero_finished [of c F e] show ?thesis by blast
qed

lemma same_books_refl: "same_books c F e e"
  by (simp add: same_books_def)

lemma same_books_step:
  assumes "good c F e" and "same_books c F e0 e" and "wstep c t e = Inr (a, e')"
  shows "same_books c F e0 e'"
proof -
  note E = wstep_effect [OF assms(1,3)]
  have "solCount e' + of_nat (pending_goals c F e') =
        solCount e + of_nat (pending_goals c F e' + counts a)"
    using E(4) by simp
  also have "\<dots> = solCount e + of_nat (pending_goals c F e)" using E(3) by simp
  finally have 1: "solCount e' + of_nat (pending_goals c F e') =
        solCount e + of_nat (pending_goals c F e)" .
  have 2: "storeSolutions e \<longrightarrow> tally c F e' = tally c F e"
    using E(3) E(5) by (auto simp: tally_def)
  from 1 2 E(6) E(7) wstep_pool(1) [OF assms(3)] assms(2) show ?thesis
    by (simp add: same_books_def)
qed

lemma run_books:
  assumes "good c F e0" and "run c sched k e0 = Inr e"
  shows "good c F e \<and> same_books c F e0 e"
  using assms(2)
proof (induction k arbitrary: e)
  case 0
  with assms(1) show ?case by (simp add: same_books_refl)
next
  case (Suc k)
  from Suc.prems obtain e1 a where
    r: "run c sched k e0 = Inr e1" and s: "wstep c (sched k) e1 = Inr (a, e)"
    by (auto split: sum.splits)
  from Suc.IH [OF r] have g: "good c F e1" and b: "same_books c F e0 e1" by simp_all
  from wstep_effect(1) [OF g s] same_books_step [OF g b s] show ?case by simp
qed

lemma exec_books:
  assumes "good c F e0" and "exec c sch e0 = Inr (tr, e)"
  shows "good c F e \<and> same_books c F e0 e"
  using assms
proof (induction sch arbitrary: e0 tr)
  case Nil
  then show ?case by (simp add: same_books_refl)
next
  case (Cons t ts)
  from Cons.prems(2) obtain a e1 tr1 where
    s: "wstep c t e0 = Inr (a, e1)" and r: "exec c ts e1 = Inr (tr1, e)"
    by (auto split: sum.splits)
  have g1: "good c F e1" using wstep_effect(1) [OF Cons.prems(1) s] .
  have b1: "same_books c F e0 e1"
    using same_books_step [OF Cons.prems(1) same_books_refl s] .
  from Cons.IH [OF g1 r] have g: "good c F e" and b: "same_books c F e1 e" by simp_all
  from b1 b have "same_books c F e0 e" by (auto simp: same_books_def)
  with g show ?case by simp
qed

lemma finished_books:
  assumes "good c F e" and "list_all finished (pool e)"
  shows "globalStateStack e = []" and "pending_goals c F e = 0" and "pending_stores e = 0"
    and "activeWorkerCount e = 0" and "statesMutex e = None"
proof -
  have f: "\<And>pc. pc \<in> set (pool e) \<Longrightarrow> pc = W_NoThread \<or> pc = W_Exit"
    using assms(2) by (auto simp: list_all_iff finished_def)
  have np: "\<not> (\<exists>t < length (pool e). pending (pool e ! t))"
    using f by (force simp: in_set_conv_nth)
  with assms(1) show s0: "globalStateStack e = []" by (auto simp: good_def wf_pending_def)
  have "\<forall>pc \<in> set (pool e). rem_goals c F (heap e) pc = 0"
  proof
    fix pc assume "pc \<in> set (pool e)"
    from f [OF this] show "rem_goals c F (heap e) pc = 0" by auto
  qed
  then have "sum_list (map (rem_goals c F (heap e)) (pool e)) = 0" by simp
  with s0 show "pending_goals c F e = 0" by (simp add: pending_goals_def)
  have "\<forall>pc \<in> set (pool e). storing pc = 0"
  proof
    fix pc assume "pc \<in> set (pool e)"
    from f [OF this] show "storing pc = 0" by auto
  qed
  then show "pending_stores e = 0" by (simp add: pending_stores_def)
  have "filter credit (pool e) = []"
  proof (rule filter_False, rule ballI)
    fix pc assume "pc \<in> set (pool e)"
    from f [OF this] show "\<not> credit pc" by auto
  qed
  with assms(1) show "activeWorkerCount e = 0" by (simp add: good_def wf_def wf_count_def)
  show "statesMutex e = None"
  proof (cases "statesMutex e")
    case (Some u)
    with assms(1) have "u < length (pool e)" "is_locked (pool e ! u)"
      by (simp_all add: good_def wf_def wf_mutex_def)
    with f [of "pool e ! u"] show ?thesis by auto
  qed simp
qed

lemma run_prefix:
  "run c sched (Suc k) e0 = Inr e \<Longrightarrow> \<exists>e1. run c sched k e0 = Inr e1"
  by (auto split: sum.splits)

lemma run_shift:
  "run c sched (Suc k) e0 =
     (case wstep c (sched 0) e0 of Inl err \<Rightarrow> Inl err
      | Inr (a, e1) \<Rightarrow> run c (\<lambda>i. sched (Suc i)) k e1)"
proof (induction k)
  case 0
  show ?case by (simp split: sum.splits)
next
  case (Suc k)
  show ?case
    by (subst run.simps(2), subst Suc.IH) (auto split: sum.splits)
qed

lemma join_pool_run:
  assumes "run c sched k e0 = Inr e" and "list_all finished (pool e)"
  shows "\<exists>j e'. j \<le> k \<and> run c sched j e0 = Inr e' \<and> list_all finished (pool e') \<and>
           join_pool c (\<lambda>i. sched i) 0 e0 = Some (Inr e')"
proof -
  have "\<exists>j e'. j \<le> k \<and> run c sched j e0 = Inr e' \<and> list_all finished (pool e') \<and>
           join_pool c sched i ei = Some (Inr e')"
    if "i \<le> k" and "run c sched i e0 = Inr ei" for i ei
    using that
  proof (induction "k - i" arbitrary: i ei)
    case 0
    then have "i = k" by simp
    with 0(3) assms have "ei = e" by simp
    with assms \<open>i = k\<close> show ?case
      by (intro exI [of _ k] exI [of _ e]) (simp add: join_pool.simps)
  next
    case (Suc d)
    show ?case
    proof (cases "list_all finished (pool ei)")
      case True
      with Suc(3,4) show ?thesis
        by (intro exI [of _ i] exI [of _ ei]) (simp add: join_pool.simps)
    next
      case False
      from Suc(2,3) have lt: "Suc i \<le> k" by simp
      have "\<exists>e2. run c sched (Suc i) e0 = Inr e2"
        using lt assms(1)
      proof (induction "k - Suc i" arbitrary: k e)
        case 0
        then show ?case by auto
      next
        case (Suc m)
        then obtain k' where k': "k = Suc k'" by (cases k) auto
        with Suc(4) obtain e1 where r: "run c sched k' e0 = Inr e1"
          using run_prefix by blast
        show ?case
        proof (cases "Suc i = k")
          case True
          with Suc(4) show ?thesis by blast
        next
          case False
          with Suc(3) k' have "Suc i \<le> k'" by simp
          moreover have "m = k' - Suc i" using Suc(2) k' by simp
          ultimately show ?thesis using Suc(1) r by blast
        qed
      qed
      then obtain e2 where r2: "run c sched (Suc i) e0 = Inr e2" by blast
      with Suc(4) obtain a where s: "wstep c (sched i) ei = Inr (a, e2)"
        by (auto split: sum.splits)
      have d: "d = k - Suc i" using Suc(2) by simp
      from Suc(1) [OF d lt r2] obtain j e' where
        j: "j \<le> k" "run c sched j e0 = Inr e'" "list_all finished (pool e')"
          "join_pool c sched (Suc i) e2 = Some (Inr e')"
        by blast
      have "join_pool c sched i ei = join_pool c sched (Suc i) e2"
        using False s by (subst join_pool.simps) simp
      with j show ?thesis by auto
    qed
  qed
  from this [of 0 e0] show ?thesis by simp
qed

lemma pos16:
  fixes n :: "16 word"
  assumes "0 <s n"
  shows "unat (scast n :: 64 word) = unat n" and "unat n < 2 ^ 15" and "0 < unat n"
proof -
  from assms have p: "0 < sint n" by (simp add: word_sless_alt)
  have lt: "uint n < 2 ^ 15"
  proof (rule ccontr)
    assume "\<not> uint n < 2 ^ 15"
    then have "2 ^ 15 \<le> uint n" by simp
    then have "signed_take_bit 15 (uint n) \<le> uint n - 2 ^ Suc 15"
      by (rule signed_take_bit_int_less_eq)
    moreover have "uint n < 2 ^ 16" using uint_bounded [of n] by simp
    moreover have "sint n = signed_take_bit 15 (uint n)" by (simp add: sint_uint)
    moreover have "(2::int) ^ Suc 15 = 65536" "(2::int) ^ 16 = 65536" by simp_all
    ultimately have "sint n < 0" by linarith
    with p show False by linarith
  qed
  have "signed_take_bit 15 (uint n) = uint n"
  proof (rule signed_take_bit_int_eq_self)
    show "- (2 ^ 15) \<le> uint n" by (rule order_trans [of _ 0]) simp_all
    show "uint n < 2 ^ 15" by (rule lt)
  qed
  then have su: "sint n = uint n" by (simp add: sint_uint)
  have "scast n = (word_of_int (uint n) :: 64 word)" by (simp only: scast_eq su)
  also have "\<dots> = ucast n" by (simp only: ucast_eq)
  finally have "uint (scast n :: 64 word) = uint (ucast n :: 64 word)" by simp
  also have "\<dots> = uint n" by (rule uint_up_ucast) (simp add: is_up)
  finally have "uint (scast n :: 64 word) = uint n" .
  then show "unat (scast n :: 64 word) = unat n" by (simp only: unat_eq_nat_uint)
  have "nat (uint n) < nat (2 ^ 15)" using lt by (simp only: nat_less_eq_zless [OF uint_nonnegative])
  then show "unat n < 2 ^ 15" by (simp only: unat_eq_nat_uint) simp
  have "0 < uint n" using p by (simp only: su)
  then have "0 < nat (uint n)" by (simp only: zero_less_nat_eq)
  then show "0 < unat n" by (simp only: unat_eq_nat_uint)
qed

lemma StartPool_from_eq:
  assumes "length (pool e) = N" and "unat (scast (numThreads e) :: 64 word) = N" and "i \<le> N"
  shows "StartPool_from i e = Inr (e\<lparr>pool := take i (pool e) @ replicate (N - i) W_GetState\<rparr>)"
  using assms
proof (induction "N - i" arbitrary: i e)
  case 0
  then show ?case by (subst StartPool_from.simps) simp
next
  case (Suc d)
  let ?e = "e\<lparr>pool := (pool e)[i := W_GetState]\<rparr>"
  from Suc(2,5) have lt: "i < N" by simp
  have d: "d = N - Suc i" using Suc(2) by simp
  have ih: "StartPool_from (Suc i) ?e =
      Inr (?e\<lparr>pool := take (Suc i) (pool ?e) @ replicate (N - Suc i) W_GetState\<rparr>)"
    by (rule Suc(1) [OF d]) (use Suc(3,4) lt in simp_all)
  have t: "take (Suc i) ((pool e)[i := W_GetState]) = take i (pool e) @ [W_GetState]"
    using lt Suc(3) by (simp add: take_Suc_conv_app_nth)
  have "N - i = Suc (N - Suc i)" using lt by simp
  then have rp: "replicate (N - i) W_GetState = W_GetState # replicate (N - Suc i) W_GetState"
    by (simp only: replicate_Suc)
  have B: "take (Suc i) (pool ?e) @ replicate (N - Suc i) W_GetState =
      take i (pool e) @ replicate (N - i) W_GetState"
    by (simp only: rp) (simp add: t)
  have A: "StartPool_from i e = StartPool_from (Suc i) ?e"
    using lt Suc(3,4) by (subst StartPool_from.simps) simp
  show ?case unfolding A ih B by simp
qed

lemma StartPool_eq:
  assumes "pool e = replicate (unat n) W_NoThread" and "numThreads e = n" and "0 <s n"
  shows "StartPool e = Inr (e\<lparr>pool := replicate (unat n) W_GetState\<rparr>)"
  using StartPool_from_eq [of e "unat n" 0] assms pos16(1) [OF assms(3)]
  by (simp add: StartPool_def)

lemma good_start:
  assumes "distinct (globalStateStack e)"
    and "\<And>h. h \<in> set (globalStateStack e) \<Longrightarrow> h < next_handle e \<and> state_ok c F (heap e) h"
    and "statesMutex e = None" and "activeWorkerCount e = 0" and "0 < N" and "N < 2 ^ 15"
  shows "good c F (e\<lparr>pool := replicate N W_GetState\<rparr>)"
proof -
  have "wf_handles c F (e\<lparr>pool := replicate N W_GetState\<rparr>)"
    by (rule wf_handlesI) (use assms(1,2) in simp_all)
  moreover have "wf_mutex (e\<lparr>pool := replicate N W_GetState\<rparr>)"
    using assms(3) by (simp add: wf_mutex_def)
  moreover have "wf_count (e\<lparr>pool := replicate N W_GetState\<rparr>)"
    using assms(4,6) by (simp add: wf_count_def)
  moreover have "wf_pending (e\<lparr>pool := replicate N W_GetState\<rparr>)"
    using assms(5) by (auto simp: wf_pending_def intro!: exI [of _ 0])
  ultimately show ?thesis by (simp add: good_def wf_def)
qed

lemma start_books:
  "pending_goals c F (e\<lparr>pool := replicate N W_GetState\<rparr>) =
     sum_list (map (state_goals c F (heap e)) (globalStateStack e))"
  "pending_stores (e\<lparr>pool := replicate N W_GetState\<rparr>) = 0"
  by (simp_all add: pending_goals_def pending_stores_def)

lemma put_children_heap_map:
  "map (heap (put_children xs e)) [next_handle e ..< next_handle e + length xs] = map Some xs"
proof (rule nth_equalityI)
  show "length (map (heap (put_children xs e)) [next_handle e ..< next_handle e + length xs]) =
    length (map Some xs)" by simp
next
  fix i assume "i < length (map (heap (put_children xs e)) [next_handle e ..< next_handle e + length xs])"
  then have i: "i < length xs" by simp
  with put_children_heap_new [OF i, of e]
  show "map (heap (put_children xs e)) [next_handle e ..< next_handle e + length xs] ! i =
    map Some xs ! i" by simp
qed

lemma root_safe_step:
  assumes "root_safe r st e" and "wstep c t e = Inr (a, e')"
  shows "root_safe r st e'"
  using assms(2)
proof (cases rule: wstep_cases)
  case 1
  with assms(1) show ?thesis by simp
next
  case (2 pc' e1)
  from assms(1) have R: "heap e r = Some st" "r < next_handle e"
    "r \<notin> set (globalStateStack e)" "\<And>u. u < length (pool e) \<Longrightarrow> r \<notin> set (owns (pool e ! u))"
    by (simp_all add: root_safe_def)
  from 2(2) have "heap e1 r = Some st \<and> r < next_handle e1 \<and>
      r \<notin> set (globalStateStack e1) \<and> r \<notin> set (owns pc') \<and> pool e1 = pool e"
    using R(1,2,3) R(4) [OF 2(1)]
    by (cases rule: wstep_pc_cases) auto
  with R(4) 2(1,3) show ?thesis
    by (auto simp: root_safe_def nth_list_update)
qed

lemma root_safe_run:
  assumes "root_safe r st e0" and "run c sched k e0 = Inr e"
  shows "root_safe r st e"
  using assms(2)
proof (induction k arbitrary: e)
  case 0
  with assms(1) show ?case by simp
next
  case (Suc k)
  from Suc.prems obtain e1 a where
    r: "run c sched k e0 = Inr e1" and s: "wstep c (sched k) e1 = Inr (a, e)"
    by (auto split: sum.splits)
  from root_safe_step [OF Suc.IH [OF r] s] show ?case .
qed

lemma ProcessState_goal_run:
  assumes "heap e s = Some st" and "IsGoal c st"
  shows "ProcessState c s e =
     Some (Inr
       ((case visit e of None \<Rightarrow> True | Some v \<Rightarrow> fst (v (visit_state e) st)),
        [Count s,
         (if storeSolutions e then Store s (GetCoreSet c st) else Tau),
         (case visit e of None \<Rightarrow> Tau | Some v \<Rightarrow> Visit s (fst (v (visit_state e) st)))],
        e\<lparr>solCount := solCount e + 1,
          solutions := (if storeSolutions e then solutions e @ [GetCoreSet c st]
                        else solutions e),
          visit_state := (case visit e of None \<Rightarrow> visit_state e
                          | Some v \<Rightarrow> snd (v (visit_state e) st))\<rparr>))"
  using ProcessState_from_goal [OF assms, of "[]"] by (simp add: ProcessState_def)

lemma ProcessState_dead:
  assumes "heap e s = Some st" and "\<not> IsGoal c st" and "IsDead c st"
  shows "ProcessState c s e = Some (Inr (False, [Tau], e))"
  using assms unfolding ProcessState_def
  by (subst ProcessState_from.simps) simp

lemma ProcessState_expand:
  assumes "heap e s = Some st" and "\<not> IsGoal c st" and "\<not> IsDead c st"
    and "s < next_handle e"
    and "candidate_pairs c st k (NULL_NODE c) (NULL_NODE c) = Some ps"
  shows "\<exists>acts. ProcessState c s e =
           Some (Inr (False, acts, put_children (map (child c st) (feasible_pairs c st ps)) e))"
proof -
  from ProcessState_from_loop [OF assms(5) assms(1) assms(4), of "[Tau]"]
  obtain acts where a: "ProcessState_from c s (P_Loop (NULL_NODE c) (NULL_NODE c)) [Tau] e =
      Some (Inr (False, acts, put_children (map (child c st) (feasible_pairs c st ps)) e))"
    by blast
  have "ProcessState c s e =
      Some (Inr (False, acts, put_children (map (child c st) (feasible_pairs c st ps)) e))"
    unfolding ProcessState_def using assms(1,2,3) a
    by (subst ProcessState_from.simps) simp
  then show ?thesis by blast
qed

lemma init_state:
  fixes c :: "('s, 'n, 'sol) VFState" and n cp :: "16 word" and store :: bool
    and v :: "('v \<Rightarrow> 's \<Rightarrow> bool \<times> 'v) option" and vs :: 'v and hp :: "nat \<rightharpoonup> 's" and nh :: nat
  defines "e0 \<equiv> (ParallelMatchingEngine n store cp v vs hp nh :: ('s, 'n, 'sol, 'v) engine)"
  assumes fe: "finite_expansion c F st" and hp: "hp r = Some st" and r: "r < nh"
    and n: "0 <s n"
  shows "\<exists>e2. started c r e0 e2 \<and> good c F e2 \<and> root_safe r st e2 \<and>
           length (pool e2) = unat n \<and>
           solCount e2 + of_nat (pending_goals c F e2) = of_nat (goal_count c F st) \<and>
           storeSolutions e2 = store \<and>
           (store \<longrightarrow> tally c F e2 = goal_count c F st) \<and>
           (\<not> store \<longrightarrow> solutions e2 = [])"
proof -
  have e0: "heap e0 r = Some st" "next_handle e0 = nh" "globalStateStack e0 = []"
    "statesMutex e0 = None" "activeWorkerCount e0 = 0" "solCount e0 = 0" "solutions e0 = []"
    "storeSolutions e0 = store" "pool e0 = replicate (unat n) W_NoThread" "numThreads e0 = n"
    using hp by (simp_all add: e0_def ParallelMatchingEngine_def)
  note N = pos16 [OF n]
  obtain k where F: "F = Suc k" using fe by (cases F) auto
  have fin: "\<exists>e2. started c r e0 e2 \<and> good c F e2 \<and> root_safe r st e2 \<and>
           length (pool e2) = unat n \<and>
           solCount e2 + of_nat (pending_goals c F e2) = of_nat (goal_count c F st) \<and>
           storeSolutions e2 = store \<and>
           (store \<longrightarrow> tally c F e2 = goal_count c F st) \<and>
           (\<not> store \<longrightarrow> solutions e2 = [])"
    if run: "ProcessState c r e0 = Some (Inr (b, acts, e1))"
      and p: "pool e1 = pool e0" "numThreads e1 = n" "statesMutex e1 = None"
        "activeWorkerCount e1 = 0" "storeSolutions e1 = store"
      and d: "distinct (globalStateStack e1)"
      and h: "\<And>h. h \<in> set (globalStateStack e1) \<Longrightarrow>
                nh \<le> h \<and> h < next_handle e1 \<and> state_ok c F (heap e1) h"
      and rt: "heap e1 r = Some st" "nh \<le> next_handle e1"
      and cnt: "solCount e1 + of_nat (sum_list (map (state_goals c F (heap e1)) (globalStateStack e1)))
                  = of_nat (goal_count c F st)"
      and tl: "store \<longrightarrow> length (solutions e1) +
                  sum_list (map (state_goals c F (heap e1)) (globalStateStack e1)) = goal_count c F st"
      and ns: "\<not> store \<longrightarrow> solutions e1 = []"
    for b acts e1
  proof -
    let ?e2 = "e1\<lparr>pool := replicate (unat n) W_GetState\<rparr>"
    have sp: "StartPool e1 = Inr ?e2"
      by (rule StartPool_eq) (use p e0 n in simp_all)
    have g: "good c F ?e2"
      by (rule good_start) (use d h p N in auto)
    have "r \<notin> set (globalStateStack e1)"
    proof
      assume "r \<in> set (globalStateStack e1)"
      from h [OF this] r show False by simp
    qed
    then have rs: "root_safe r st ?e2"
      using rt r by (simp add: root_safe_def)
    show ?thesis
      using run sp g rs cnt tl ns p
      by (intro exI [of _ ?e2]) (auto simp: started_def start_books tally_def)
  qed
  show ?thesis
  proof (cases "IsGoal c st")
    case True
    have gc: "goal_count c F st = 1" using True F by simp
    show ?thesis
      by (rule fin [OF ProcessState_goal_run [OF e0(1) True]])
         (use e0 gc r in \<open>simp_all add: state_ok_def\<close>)
  next
    case False
    show ?thesis
    proof (cases "IsDead c st")
      case True
      have gc: "goal_count c F st = 0" using True False F by simp
      show ?thesis
        by (rule fin [OF ProcessState_dead [OF e0(1) False True]])
           (use e0 gc r in simp_all)
    next
      case nd: False
      from expansion_unfold [OF fe False nd]
      have lf: "loop_fin c F st (NULL_NODE c) (NULL_NODE c)" and
        gc: "goal_count c F st = loop_goals c F st (NULL_NODE c) (NULL_NODE c)"
        by simp_all
      from lf obtain ps where
        ps: "candidate_pairs c st F (NULL_NODE c) (NULL_NODE c) = Some ps" and
        ch: "list_all (\<lambda>p. finite_expansion c F (child c st p)) (feasible_pairs c st ps)"
        by (auto simp: loop_fin_def split: option.splits)
      let ?xs = "map (child c st) (feasible_pairs c st ps)"
      let ?e1 = "put_children ?xs e0"
      from ProcessState_expand [OF e0(1) False nd _ ps] r e0(2)
      obtain acts where run: "ProcessState c r e0 = Some (Inr (False, acts, ?e1))" by auto
      have stk: "globalStateStack ?e1 = rev [nh ..< nh + length ?xs]"
        using put_children_stack [of ?xs e0] e0 by simp
      have hm: "map (heap ?e1) [nh ..< nh + length ?xs] = map Some ?xs"
        using put_children_heap_map [of ?xs e0] e0 by simp
      have sg: "map (state_goals c F (heap ?e1)) [nh ..< nh + length ?xs] =
          map (goal_count c F) ?xs"
      proof -
        have "map (state_goals c F (heap ?e1)) [nh ..< nh + length ?xs] =
          map (\<lambda>x. case x of None \<Rightarrow> 0 | Some st \<Rightarrow> goal_count c F st)
            (map (heap ?e1) [nh ..< nh + length ?xs])"
          by (simp add: state_goals_def comp_def)
        also have "\<dots> = map (goal_count c F) ?xs" unfolding hm by (simp add: comp_def)
        finally show ?thesis .
      qed
      have sum: "sum_list (map (state_goals c F (heap ?e1)) (globalStateStack ?e1)) =
          goal_count c F st"
      proof -
        have "sum_list (map (state_goals c F (heap ?e1)) (globalStateStack ?e1)) =
            sum_list (map (state_goals c F (heap ?e1)) [nh ..< nh + length ?xs])"
          unfolding stk by (simp add: rev_map [symmetric])
        also have "\<dots> = sum_list (map (goal_count c F) ?xs)" unfolding sg ..
        also have "\<dots> = goal_count c F st"
          unfolding gc loop_goals_def ps by (simp add: comp_def)
        finally show ?thesis .
      qed
      have ok: "nh \<le> h \<and> h < next_handle ?e1 \<and> state_ok c F (heap ?e1) h"
        if "h \<in> set (globalStateStack ?e1)" for h
      proof -
        from that stk obtain i where i: "i < length ?xs" "h = nh + i"
          by (auto simp: set_upt) (metis add_diff_inverse_nat le_add_diff_inverse nat_add_left_cancel_less not_less)
        from put_children_heap_new [OF i(1), of e0] e0 i
        have "heap ?e1 h = Some (?xs ! i)" by simp
        moreover have "finite_expansion c F (?xs ! i)"
          using ch i(1) by (simp add: list_all_length)
        ultimately show ?thesis
          using i put_children_next [of ?xs e0] e0 by (simp add: state_ok_def)
      qed
      show ?thesis
      proof (rule fin [OF run])
        show "distinct (globalStateStack ?e1)" unfolding stk by simp
        show "\<And>h. h \<in> set (globalStateStack ?e1) \<Longrightarrow>
            nh \<le> h \<and> h < next_handle ?e1 \<and> state_ok c F (heap ?e1) h"
          by (rule ok)
        show "heap ?e1 r = Some st"
          using put_children_heap_old [of r e0 ?xs] r e0 by simp
        show "nh \<le> next_handle ?e1" using put_children_next [of ?xs e0] e0 by simp
        show "solCount ?e1 + of_nat (sum_list (map (state_goals c F (heap ?e1)) (globalStateStack ?e1)))
                  = of_nat (goal_count c F st)"
          unfolding sum by (simp add: put_children_fields e0)
        show "store \<longrightarrow> length (solutions ?e1) +
                  sum_list (map (state_goals c F (heap ?e1)) (globalStateStack ?e1)) = goal_count c F st"
          unfolding sum by (simp add: put_children_fields e0)
      qed (simp_all add: put_children_fields e0)
    qed
  qed
qed

lemma no_thread_step:
  assumes "W_NoThread \<notin> set (pool e)" and "wstep c t e = Inr (a, e')"
  shows "W_NoThread \<notin> set (pool e')"
  using assms(2)
proof (cases rule: wstep_cases)
  case 1
  with assms(1) show ?thesis by simp
next
  case (2 pc' e1)
  from assms(1) 2(1) have "pool e ! t \<noteq> W_NoThread" by (auto simp: in_set_conv_nth)
  with 2(2) have "pc' \<noteq> W_NoThread \<and> pool e1 = pool e"
    by (cases rule: wstep_pc_cases) simp_all
  with assms(1) 2(3) show ?thesis
    by (auto dest: set_update_subset_insert [THEN subsetD])
qed

lemma no_thread_run:
  assumes "W_NoThread \<notin> set (pool e0)" and "run c sched k e0 = Inr e"
  shows "W_NoThread \<notin> set (pool e)"
  using assms(2)
proof (induction k arbitrary: e)
  case 0
  with assms(1) show ?case by simp
next
  case (Suc k)
  from Suc.prems obtain e1 a where
    r: "run c sched k e0 = Inr e1" and s: "wstep c (sched k) e1 = Inr (a, e)"
    by (auto split: sum.splits)
  from no_thread_step [OF Suc.IH [OF r] s] show ?case .
qed

lemma engine_drains:
  fixes c :: "('s, 'n, 'sol) VFState" and n cp :: "16 word" and store :: bool
    and v :: "('v \<Rightarrow> 's \<Rightarrow> bool \<times> 'v) option" and vs :: 'v and hp :: "nat \<rightharpoonup> 's" and nh :: nat
  defines "e0 \<equiv> (ParallelMatchingEngine n store cp v vs hp nh :: ('s, 'n, 'sol, 'v) engine)"
  assumes fe: "finite_expansion c F st" and hp: "hp r = Some st" and r: "r < nh"
    and n: "0 <s n" and fair: "fair (unat n) sched"
  shows "\<exists>e2 k e'. started c r e0 e2 \<and> run c sched k e2 = Inr e' \<and>
           FindAllMatchings c sched r e0 = Some (Inr (True, e')) \<and>
           good c F e' \<and>
           pool e' = replicate (unat n) W_Exit \<and>
           globalStateStack e' = [] \<and> activeWorkerCount e' = 0 \<and>
           solCount e' = of_nat (goal_count c F st) \<and>
           (store \<longrightarrow> length (solutions e') = goal_count c F st) \<and>
           (\<not> store \<longrightarrow> solutions e' = []) \<and>
           heap e' r = Some st"
proof -
  from init_state [where hp = hp and r = r and store = store and cp = cp and v = v
      and vs = vs, OF fe hp r n]
  obtain e2 where st: "started c r e0 e2" and g2: "good c F e2" and rs: "root_safe r st e2"
    and l2: "length (pool e2) = unat n"
    and c2: "solCount e2 + of_nat (pending_goals c F e2) = of_nat (goal_count c F st)"
    and s2: "storeSolutions e2 = store"
    and t2: "store \<longrightarrow> tally c F e2 = goal_count c F st"
    and n2: "\<not> store \<longrightarrow> solutions e2 = []"
    unfolding e0_def by blast
  from st obtain b acts e1 where
    ps: "ProcessState c r e0 = Some (Inr (b, acts, e1))" and sp: "StartPool e1 = Inr e2"
    by (auto simp: started_def)
  from fair l2 have f2: "fair (length (pool e2)) sched" by simp
  from run_terminates [OF g2 f2] obtain k ek where
    "run c sched k e2 = Inr ek" "list_all finished (pool ek)" by blast
  from join_pool_run [OF this] obtain j e' where
    rj: "run c sched j e2 = Inr e'" and fin: "list_all finished (pool e')" and
    jp: "join_pool c sched 0 e2 = Some (Inr e')"
    by auto
  from run_books [OF g2 rj] have g': "good c F e'" and bk: "same_books c F e2 e'" by simp_all
  note FB = finished_books [OF g' fin]
  have fam: "FindAllMatchings c sched r e0 = Some (Inr (True, e'))"
    using ps sp jp by (simp add: FindAllMatchings_def)
  have nt2: "W_NoThread \<notin> set (pool e2)"
  proof -
    have p1: "pool e1 = replicate (unat n) W_NoThread \<and> numThreads e1 = n"
    proof (cases "IsGoal c st")
      case True
      from ProcessState_goal_run [of e0 r st c] True hp ps show ?thesis
        by (auto simp: e0_def ParallelMatchingEngine_def)
    next
      case False
      show ?thesis
      proof (cases "IsDead c st")
        case True
        from ProcessState_dead [of e0 r st c] True False hp ps show ?thesis
          by (auto simp: e0_def ParallelMatchingEngine_def)
      next
        case nd: False
        from expansion_unfold [OF fe False nd] obtain qs where
          "candidate_pairs c st F (NULL_NODE c) (NULL_NODE c) = Some qs"
          by (auto simp: loop_fin_def split: option.splits)
        from ProcessState_expand [OF _ False nd _ this, of e0 r] hp r ps show ?thesis
          by (auto simp: e0_def ParallelMatchingEngine_def put_children_fields)
      qed
    qed
    with StartPool_eq [of e1 n] n sp have "pool e2 = replicate (unat n) W_GetState" by auto
    then show ?thesis by simp
  qed
  have nt': "W_NoThread \<notin> set (pool e')" by (rule no_thread_run [OF nt2 rj])
  have le: "length (pool e') = unat n" using bk l2 by (simp add: same_books_def)
  have pl: "pool e' = replicate (unat n) W_Exit"
  proof (rule replicate_eqI [OF le])
    fix pc assume "pc \<in> set (pool e')"
    with fin nt' show "pc = W_Exit" by (auto simp: list_all_iff finished_def)
  qed
  have sc: "solCount e' = of_nat (goal_count c F st)"
    using bk c2 FB(2) by (simp add: same_books_def)
  have sl: "store \<longrightarrow> length (solutions e') = goal_count c F st"
    using bk t2 s2 FB(2,3) by (auto simp: same_books_def tally_def)
  have sn: "\<not> store \<longrightarrow> solutions e' = []"
    using bk n2 s2 by (auto simp: same_books_def)
  have hr: "heap e' r = Some st" using root_safe_run [OF rs rj] by (simp add: root_safe_def)
  from st rj fam g' pl FB(1,4) sc sl sn hr show ?thesis by blast
qed

lemma join_pool_sound:
  assumes "join_pool c sched i ei = Some (Inr e')"
  shows "\<exists>k. run c (\<lambda>j. sched (i + j)) k ei = Inr e' \<and> list_all finished (pool e')"
proof -
  define P :: "('a, 'b, 'c) VFState \<Rightarrow> (nat \<Rightarrow> nat) \<Rightarrow> nat \<Rightarrow> ('a, 'b, 'c, 'd) engine
        \<Rightarrow> (error + ('a, 'b, 'c, 'd) engine) \<Rightarrow> bool"
    where "P = (\<lambda>c sched i ei y. \<forall>e'. y = Inr e' \<longrightarrow>
     (\<exists>k. run c (\<lambda>j. sched (i + j)) k ei = Inr e' \<and> list_all finished (pool e')))"
  have "P c sched i ei (Inr e')"
  proof (rule join_pool.raw_induct [where P = P, OF _ assms])
    fix jp :: "('a, 'b, 'c) VFState \<Rightarrow> (nat \<Rightarrow> nat) \<Rightarrow> nat \<Rightarrow> ('a, 'b, 'c, 'd) engine
        \<Rightarrow> (error + ('a, 'b, 'c, 'd) engine) option"
      and c sched k e y
    assume IH: "\<And>c sched k e y. jp c sched k e = Some y \<Longrightarrow> P c sched k e y"
      and eq: "(if list_all finished (pool e) then Some (Inr e)
        else case wstep c (sched k) e of Inl err \<Rightarrow> Some (Inl err)
             | Inr (a, e') \<Rightarrow> jp c sched (Suc k) e') = Some y"
    show "P c sched k e y"
      unfolding P_def
    proof (intro allI impI)
      fix e' assume y: "y = Inr e'"
      show "\<exists>m. run c (\<lambda>j. sched (k + j)) m e = Inr e' \<and> list_all finished (pool e')"
      proof (cases "list_all finished (pool e)")
        case True
        with eq y have "e' = e" by simp
        with True show ?thesis by (intro exI [of _ 0]) simp
      next
        case False
        with eq y obtain a e1 where s: "wstep c (sched k) e = Inr (a, e1)"
          and j: "jp c sched (Suc k) e1 = Some (Inr e')"
          by (auto split: sum.splits)
        from IH [OF j, unfolded P_def] obtain m where
          m: "run c (\<lambda>j. sched (Suc k + j)) m e1 = Inr e'" and f: "list_all finished (pool e')"
          by blast
        have "run c (\<lambda>j. sched (k + j)) (Suc m) e = Inr e'"
          using s m by (subst run_shift) simp
        with f show ?thesis by blast
      qed
    qed
  qed
  then show ?thesis by (simp add: P_def)
qed

lemma sint_count:
  assumes "k < 2 ^ 15"
  shows "sint (of_nat k :: 16 word) = int k"
proof -
  have "uint (of_nat k :: 16 word) = int k"
    using assms by (simp add: uint_nat unat_of_nat take_bit_nat_eq_self)
  moreover have "signed_take_bit 15 (int k) = int k"
  proof (rule signed_take_bit_int_eq_self)
    show "- (2 ^ 15) \<le> int k" by (rule order_trans [of _ 0]) simp_all
    show "int k < 2 ^ 15" using assms by (simp flip: of_nat_less_iff)
  qed
  ultimately show ?thesis by (simp add: sint_uint)
qed

lemma counter_reads:
  assumes "good c F e"
  shows "0 \<le> sint (activeWorkerCount e)"
    and "(\<not> 0 <s activeWorkerCount e) \<longleftrightarrow> activeWorkerCount e = 0"
proof -
  let ?k = "length (filter credit (pool e))"
  from assms have a: "activeWorkerCount e = of_nat ?k" and l: "length (pool e) < 2 ^ 15"
    by (simp_all add: good_def wf_def wf_count_def)
  have k: "?k < 2 ^ 15" by (rule le_less_trans [OF length_filter_le l])
  from sint_count [OF k] a have s: "sint (activeWorkerCount e) = int ?k" by simp
  then show "0 \<le> sint (activeWorkerCount e)" by simp
  have "activeWorkerCount e = 0 \<longleftrightarrow> sint (activeWorkerCount e) = 0"
    by (metis sint_0 signed_word_eqI)
  then show "(\<not> 0 <s activeWorkerCount e) \<longleftrightarrow> activeWorkerCount e = 0"
    using s by (auto simp: word_sless_alt)
qed

lemma root_processed:
  assumes "finite_expansion c F st" and "heap e r = Some st" and "r < next_handle e"
  shows "\<exists>b acts e1. ProcessState c r e = Some (Inr (b, acts, e1)) \<and>
           pool e1 = pool e \<and> numThreads e1 = numThreads e"
proof (cases "IsGoal c st")
  case True
  from ProcessState_goal_run [OF assms(2) True] show ?thesis by auto
next
  case False
  show ?thesis
  proof (cases "IsDead c st")
    case True
    from ProcessState_dead [OF assms(2) False True] show ?thesis by auto
  next
    case nd: False
    from expansion_unfold [OF assms(1) False nd] obtain qs where
      "candidate_pairs c st F (NULL_NODE c) (NULL_NODE c) = Some qs"
      by (auto simp: loop_fin_def split: option.splits)
    from ProcessState_expand [OF assms(2) False nd assms(3) this] show ?thesis
      by (auto simp: put_children_fields)
  qed
qed

lemma engine_result:
  fixes c :: "('s, 'n, 'sol) VFState" and n cp :: "16 word" and store :: bool
    and v :: "('v \<Rightarrow> 's \<Rightarrow> bool \<times> 'v) option" and vs :: 'v and hp :: "nat \<rightharpoonup> 's" and nh :: nat
  defines "e0 \<equiv> (ParallelMatchingEngine n store cp v vs hp nh :: ('s, 'n, 'sol, 'v) engine)"
  assumes fe: "finite_expansion c F st" and hp: "hp r = Some st" and r: "r < nh"
    and n: "0 <s n" and ret: "FindAllMatchings c sched r e0 = Some (Inr (b, e'))"
  shows "b" and "pool e' = replicate (unat n) W_Exit"
    and "solCount e' = of_nat (goal_count c F st)"
    and "store \<longrightarrow> length (solutions e') = goal_count c F st"
    and "\<not> store \<longrightarrow> solutions e' = []"
    and "heap e' r = Some st" and "globalStateStack e' = []" and "activeWorkerCount e' = 0"
proof -
  from init_state [where hp = hp and r = r and store = store and cp = cp and v = v
      and vs = vs, OF fe hp r n]
  obtain e2 where st: "started c r e0 e2" and g2: "good c F e2" and rs: "root_safe r st e2"
    and l2: "length (pool e2) = unat n"
    and c2: "solCount e2 + of_nat (pending_goals c F e2) = of_nat (goal_count c F st)"
    and s2: "storeSolutions e2 = store"
    and t2: "store \<longrightarrow> tally c F e2 = goal_count c F st"
    and n2: "\<not> store \<longrightarrow> solutions e2 = []"
    unfolding e0_def by blast
  from st obtain b0 acts e1 where
    ps: "ProcessState c r e0 = Some (Inr (b0, acts, e1))" and sp: "StartPool e1 = Inr e2"
    by (auto simp: started_def)
  from ret ps sp have jp: "join_pool c sched 0 e2 = Some (Inr e')" and b: "b"
    by (auto simp: FindAllMatchings_def split: option.splits sum.splits)
  from join_pool_sound [OF jp] obtain k where
    rj: "run c sched k e2 = Inr e'" and fin: "list_all finished (pool e')"
    by auto
  from run_books [OF g2 rj] have g': "good c F e'" and bk: "same_books c F e2 e'" by simp_all
  note FB = finished_books [OF g' fin]
  have e0: "heap e0 r = Some st" "next_handle e0 = nh"
    "pool e0 = replicate (unat n) W_NoThread" "numThreads e0 = n"
    using hp by (simp_all add: e0_def ParallelMatchingEngine_def)
  from root_processed [OF fe e0(1)] r e0 ps
  have p1: "pool e1 = replicate (unat n) W_NoThread" "numThreads e1 = n" by auto
  with StartPool_eq [of e1 n] n sp have "pool e2 = replicate (unat n) W_GetState" by auto
  then have nt2: "W_NoThread \<notin> set (pool e2)" by simp
  have nt': "W_NoThread \<notin> set (pool e')" by (rule no_thread_run [OF nt2 rj])
  have le: "length (pool e') = unat n" using bk l2 by (simp add: same_books_def)
  show "b" by (rule b)
  show "pool e' = replicate (unat n) W_Exit"
  proof (rule replicate_eqI [OF le])
    fix pc assume "pc \<in> set (pool e')"
    with fin nt' show "pc = W_Exit" by (auto simp: list_all_iff finished_def)
  qed
  show "solCount e' = of_nat (goal_count c F st)"
    using bk c2 FB(2) by (simp add: same_books_def)
  show "store \<longrightarrow> length (solutions e') = goal_count c F st"
    using bk t2 s2 FB(2,3) by (auto simp: same_books_def tally_def)
  show "\<not> store \<longrightarrow> solutions e' = []"
    using bk n2 s2 by (auto simp: same_books_def)
  show "heap e' r = Some st" using root_safe_run [OF rs rj] by (simp add: root_safe_def)
  show "globalStateStack e' = []" by (rule FB(1))
  show "activeWorkerCount e' = 0" by (rule FB(4))
qed

lemma engine_returns:
  fixes c :: "('s, 'n, 'sol) VFState" and n cp :: "16 word" and store :: bool
    and v :: "('v \<Rightarrow> 's \<Rightarrow> bool \<times> 'v) option" and vs :: 'v and hp :: "nat \<rightharpoonup> 's" and nh :: nat
  assumes fe: "finite_expansion c F st" and hp: "hp r = Some st" and r: "r < nh"
    and n: "0 <s n" and fair: "fair (unat n) sched"
  shows "\<exists>e'. FindAllMatchings c sched r
           (ParallelMatchingEngine n store cp v vs hp nh :: ('s, 'n, 'sol, 'v) engine) =
           Some (Inr (True, e'))"
  using engine_drains [where hp = hp and r = r and store = store and cp = cp and v = v
      and vs = vs, OF fe hp r n fair]
  by blast

lemma fair_round_robin: "0 < n \<Longrightarrow> fair n (\<lambda>k. k mod n)"
proof (unfold fair_def, intro allI impI)
  fix t i assume n: "0 < n" and t: "t < n"
  have "i * n + t \<ge> i" using n by (cases n) simp_all
  moreover have "(i * n + t) mod n = t" using t by simp
  ultimately show "\<exists>j \<ge> i. j mod n = t" by blast
qed

lemma two_by_two_finite: "finite_expansion two_by_two 4 []"
  by (simp add: two_by_two_def eval_nat_numeral feasible_pairs_def child_def)

lemma unat_GetSolutionsCount: "unat (GetSolutionsCount e) = unat (solCount e)"
proof -
  have "uint (ucast (solCount e) :: 64 word) = uint (solCount e)"
    by (rule uint_up_ucast) (simp add: is_up)
  then show ?thesis by (simp only: GetSolutionsCount_def unat_eq_nat_uint)
qed

lemma pos16_numeral: "0 <s (1 :: 16 word)" "0 <s (2 :: 16 word)"
  by (simp_all add: word_sless_alt)

text \<open>
  Claim C2. Let the expansion tree of the root be finite. Whatever the number of workers
  (a positive \<^verbatim>\<open>int16_t\<close>), the persistence flag, the visitor and the schedule (fair to
  the workers, so that each of them keeps running), \<^verbatim>\<open>FindAllMatchings\<close> returns and
  \<^verbatim>\<open>GetSolutionsCount()\<close> then is the number of goal states of the tree, as a 32-bit
  counter holds it: two runs on the same root give the same count.
\<close>

theorem solutions_count_invariant:
  fixes c :: "('s, 'n, 'sol) VFState" and n1 n2 cp1 cp2 :: "16 word"
    and v1 v2 :: "('v \<Rightarrow> 's \<Rightarrow> bool \<times> 'v) option" and vs1 vs2 :: 'v
    and hp :: "nat \<rightharpoonup> 's" and nh :: nat
  assumes "finite_expansion c F st" and "hp r = Some st" and "r < nh"
    and "0 <s n1" and "0 <s n2" and "fair (unat n1) sched1" and "fair (unat n2) sched2"
  shows "\<exists>e1 e2.
     FindAllMatchings c sched1 r
       (ParallelMatchingEngine n1 store1 cp1 v1 vs1 hp nh :: ('s, 'n, 'sol, 'v) engine) =
       Some (Inr (True, e1)) \<and>
     FindAllMatchings c sched2 r
       (ParallelMatchingEngine n2 store2 cp2 v2 vs2 hp nh :: ('s, 'n, 'sol, 'v) engine) =
       Some (Inr (True, e2)) \<and>
     GetSolutionsCount e1 = GetSolutionsCount e2 \<and>
     GetSolutionsCount e1 = ucast (of_nat (goal_count c F st) :: 32 word)"
proof -
  from engine_returns [where hp = hp and r = r and store = store1 and cp = cp1 and v = v1
      and vs = vs1, OF assms(1,2,3,4,6)] obtain e1 where
    r1: "FindAllMatchings c sched1 r
       (ParallelMatchingEngine n1 store1 cp1 v1 vs1 hp nh :: ('s, 'n, 'sol, 'v) engine) =
       Some (Inr (True, e1))" by blast
  from engine_returns [where hp = hp and r = r and store = store2 and cp = cp2 and v = v2
      and vs = vs2, OF assms(1,2,3,5,7)] obtain e2 where
    r2: "FindAllMatchings c sched2 r
       (ParallelMatchingEngine n2 store2 cp2 v2 vs2 hp nh :: ('s, 'n, 'sol, 'v) engine) =
       Some (Inr (True, e2))" by blast
  from engine_result(3) [where hp = hp and r = r, OF assms(1,2,3,4) r1]
    engine_result(3) [where hp = hp and r = r, OF assms(1,2,3,5) r2]
  have "solCount e1 = of_nat (goal_count c F st)" "solCount e2 = of_nat (goal_count c F st)" .
  with r1 r2 show ?thesis by (auto simp: GetSolutionsCount_def)
qed

theorem solutions_count_invariant_witness:
  "finite_expansion two_by_two 4 [] \<and> [0 \<mapsto> []] (0::nat) = Some ([]::nat list) \<and> (0::nat) < 1 \<and>
   0 <s (1 :: 16 word) \<and> 0 <s (2 :: 16 word) \<and>
   fair (unat (1 :: 16 word)) (\<lambda>k. k mod 1) \<and> fair (unat (2 :: 16 word)) (\<lambda>k. k mod 2) \<and>
   (\<exists>e1 e2.
      FindAllMatchings two_by_two (\<lambda>k. k mod 1) 0 (engine0 1) = Some (Inr (True, e1)) \<and>
      FindAllMatchings two_by_two (\<lambda>k. k mod 2) 0 (engine0 2) = Some (Inr (True, e2)) \<and>
      GetSolutionsCount e1 = GetSolutionsCount e2)"
proof -
  have f1: "fair (unat (1 :: 16 word)) (\<lambda>k. k mod 1)"
    using fair_round_robin [of 1] by simp
  have f2: "fair (unat (2 :: 16 word)) (\<lambda>k. k mod 2)"
    using fair_round_robin [of 2] by simp
  have h: "[0 \<mapsto> []] (0::nat) = Some ([]::nat list)" "(0::nat) < 1" by simp_all
  from solutions_count_invariant [where hp = "[0 \<mapsto> []]" and r = 0 and nh = 1
      and ?store1.0 = True and ?cp1.0 = "- 1" and ?v1.0 = "Some stop_visitor" and ?vs1.0 = 0
      and ?store2.0 = True and ?cp2.0 = "- 1" and ?v2.0 = "Some stop_visitor" and ?vs2.0 = 0,
      OF two_by_two_finite h pos16_numeral f1 f2]
  have "\<exists>e1 e2.
      FindAllMatchings two_by_two (\<lambda>k. k mod 1) 0 (engine0 1) = Some (Inr (True, e1)) \<and>
      FindAllMatchings two_by_two (\<lambda>k. k mod 2) 0 (engine0 2) = Some (Inr (True, e2)) \<and>
      GetSolutionsCount e1 = GetSolutionsCount e2"
    unfolding engine0_def by blast
  with two_by_two_finite h pos16_numeral f1 f2 show ?thesis by blast
qed

lemma exec_snoc:
  "exec c (sch @ [t]) e0 =
     (case exec c sch e0 of Inl err \<Rightarrow> Inl err
      | Inr (tr, e) \<Rightarrow>
          (case wstep c t e of Inl err \<Rightarrow> Inl err | Inr (a, e') \<Rightarrow> Inr (tr @ [(t, a)], e')))"
  by (induction sch arbitrary: e0) (auto split: sum.splits)

lemma exec_invariant:
  assumes start: "good c F e0" "P [] e0"
    and step: "\<And>tr e t a e'. good c F e \<Longrightarrow> P tr e \<Longrightarrow> wstep c t e = Inr (a, e')
                 \<Longrightarrow> P (tr @ [(t, a)]) e'"
    and run: "exec c sch e0 = Inr (tr, e)"
  shows "P tr e \<and> good c F e"
  using run
proof (induction sch arbitrary: tr e rule: rev_induct)
  case Nil
  with start show ?case by simp
next
  case (snoc t sch)
  from snoc.prems obtain tr1 e1 a where
    r: "exec c sch e0 = Inr (tr1, e1)" and s: "wstep c t e1 = Inr (a, e)" and
    tr: "tr = tr1 @ [(t, a)]"
    by (auto simp: exec_snoc split: sum.splits)
  from snoc.IH [OF r] have p: "P tr1 e1" and g: "good c F e1" by simp_all
  from step [OF g p s] wstep_effect(1) [OF g s] tr show ?case by simp
qed

lemma pops_snoc: "pops (tr @ [(t, a)]) = pops tr @ (case a of Pop s \<Rightarrow> [s] | _ \<Rightarrow> [])"
  by (induction tr rule: pops.induct) (auto split: action.splits)

lemma pops_fresh_step:
  assumes g: "good c F e" and p: "pops_fresh tr e" and s: "wstep c t e = Inr (a, e')"
  shows "pops_fresh (tr @ [(t, a)]) e'"
  using s
proof (cases rule: wstep_cases)
  case 1
  with p show ?thesis by (simp add: pops_snoc pops_fresh_def)
next
  case (2 pc' e1)
  from g have h: "wf_handles c F e" by (simp add: good_def wf_def)
  note D = wf_handlesD [OF h]
  from p have d: "distinct (pops tr)" and
    f: "\<And>h. h \<in> set (pops tr) \<Longrightarrow> h < next_handle e \<and> h \<notin> set (globalStateStack e) \<and>
        (\<forall>u < length (pool e). putting (pool e ! u) \<noteq> Some h)"
    by (auto simp: pops_fresh_def)
  have keep: "pops_fresh (tr @ [(t, a)]) e'"
    if "pops (tr @ [(t, a)]) = pops tr" and "next_handle e \<le> next_handle e1"
      and "set (globalStateStack e1) \<subseteq> set (globalStateStack e)"
      and "putting pc' = None \<or> putting pc' = putting (pool e ! t)"
      and "pool e1 = pool e"
  proof -
    { fix h assume hp: "h \<in> set (pops tr)"
      from f [OF hp] that have "h < next_handle e' \<and> h \<notin> set (globalStateStack e') \<and>
          (\<forall>u < length (pool e'). putting (pool e' ! u) \<noteq> Some h)"
        using 2(1,3) by (auto simp: nth_list_update) }
    with d that(1) show ?thesis by (simp add: pops_fresh_def)
  qed
  from 2(2) show ?thesis
  proof (cases rule: wstep_pc_cases)
    case (Pop res rest)
    have r1: "res \<in> set (globalStateStack e)" using Pop by simp
    with f have np: "res \<notin> set (pops tr)" by blast
    have r2: "res < next_handle e" using D(2) [OF r1] .
    have r3: "res \<notin> set rest" using D(1) Pop by simp
    have r4: "\<forall>u < length (pool e). putting (pool e ! u) \<noteq> Some res"
    proof (intro allI impI notI)
      fix u assume u: "u < length (pool e)" and "putting (pool e ! u) = Some res"
      then have "res \<in> set (owns (pool e ! u))"
        by (cases "pool e ! u" rule: putting.cases) auto
      from D(8) [OF u this] r1 show False by simp
    qed
    { fix h assume "h \<in> set (pops tr) \<or> h = res"
      then have "h < next_handle e' \<and> h \<notin> set (globalStateStack e') \<and>
          (\<forall>u < length (pool e'). putting (pool e' ! u) \<noteq> Some h)"
        using f [of h] r2 r3 r4 Pop 2(1,3) by (auto simp: nth_list_update) }
    with d np Pop show ?thesis by (auto simp: pops_fresh_def pops_snoc)
  next
    case (Put s s1 n1 n2)
    have "s1 \<notin> set (pops tr)"
    proof
      assume "s1 \<in> set (pops tr)"
      from f [OF this] 2(1) Put(1) show False by auto
    qed
    { fix h assume hp: "h \<in> set (pops tr)"
      with \<open>s1 \<notin> set (pops tr)\<close> have "h \<noteq> s1" by auto
      with f [OF hp] Put 2(1,3) have "h < next_handle e' \<and> h \<notin> set (globalStateStack e') \<and>
          (\<forall>u < length (pool e'). putting (pool e' ! u) \<noteq> Some h)"
        by (auto simp: nth_list_update) }
    with d Put show ?thesis by (simp add: pops_fresh_def pops_snoc)
  next
    case (Alloc s st n1 n2 m1 m2)
    { fix h assume hp: "h \<in> set (pops tr)"
      with f [OF hp] Alloc 2(1,3) have "h < next_handle e' \<and> h \<notin> set (globalStateStack e') \<and>
          (\<forall>u < length (pool e'). putting (pool e' ! u) \<noteq> Some h)"
        by (auto simp: nth_list_update) }
    with d Alloc show ?thesis by (simp add: pops_fresh_def pops_snoc)
  qed (rule keep; simp add: pops_snoc)+
qed

lemma pops_distinct:
  assumes "good c F e0" and "exec c sch e0 = Inr (tr, e)"
  shows "distinct (pops tr)"
proof -
  have "pops_fresh tr e \<and> good c F e"
  proof (rule exec_invariant [where P = pops_fresh, OF assms(1) _ _ assms(2)])
    show "pops_fresh [] e0" by (simp add: pops_fresh_def)
  next
    fix tr e t a e'
    assume "good c F e" "pops_fresh tr e" "wstep c t e = Inr (a, e')"
    then show "pops_fresh (tr @ [(t, a)]) e'" by (rule pops_fresh_step)
  qed
  then show ?thesis by (simp add: pops_fresh_def)
qed

lemma started_iff: "started c s e e2 \<longleftrightarrow> start_engine c s e = Some e2"
  by (auto simp: started_def start_engine_def split: option.splits sum.splits)

lemma observe_Some:
  "observe c s e sch = Some (tr, pl, mtx, stk, awc, cnt, sols) \<longleftrightarrow>
     (\<exists>e2 e'. started c s e e2 \<and> exec c sch e2 = Inr (tr, e') \<and> pool e' = pl \<and>
        statesMutex e' = mtx \<and> globalStateStack e' = stk \<and> activeWorkerCount e' = awc \<and> solCount e' = cnt \<and>
        solutions e' = sols)"
  by (auto simp: observe_def started_iff split: option.splits sum.splits)

lemma started_good:
  fixes c :: "('s, 'n, 'sol) VFState" and n cp :: "16 word" and store :: bool
    and v :: "('v \<Rightarrow> 's \<Rightarrow> bool \<times> 'v) option" and vs :: 'v and hp :: "nat \<rightharpoonup> 's" and nh :: nat
  assumes fe: "finite_expansion c F st" and hp: "hp r = Some st" and r: "r < nh"
    and n: "0 <s n"
    and st: "started c r (ParallelMatchingEngine n store cp v vs hp nh :: ('s, 'n, 'sol, 'v) engine) e2"
  shows "good c F e2" and "length (pool e2) = unat n" and "storeSolutions e2 = store"
proof -
  from init_state [where hp = hp and r = r and store = store and cp = cp and v = v
      and vs = vs, OF fe hp r n]
  obtain e2' where
    "started c r (ParallelMatchingEngine n store cp v vs hp nh :: ('s, 'n, 'sol, 'v) engine) e2'"
    "good c F e2'" "length (pool e2') = unat n" "storeSolutions e2' = store"
    by blast
  moreover from this(1) st have "e2' = e2" by (simp add: started_iff)
  ultimately show "good c F e2" and "length (pool e2) = unat n" and "storeSolutions e2 = store"
    by simp_all
qed

text \<open>
  Claim C4. \<^verbatim>\<open>GetState\<close> with the lock free and the frontier not empty: the caller takes
  the top of the stack, which is the state pushed last, and, in the two steps that it
  spends holding the lock, adds one to \<^verbatim>\<open>activeWorkerCount\<close>; between the two steps
  another worker that calls \<^verbatim>\<open>GetState\<close> waits. With the frontier empty it returns null
  in one step, and the engine is unchanged but for the caller's program point. In every
  execution of the workers of an engine started on a root with a finite expansion tree,
  the handles popped are pairwise different.
\<close>

theorem GetState_pop:
  fixes c :: "('s, 'n, 'sol) VFState" and n cp :: "16 word" and store :: bool
    and v :: "('v \<Rightarrow> 's \<Rightarrow> bool \<times> 'v) option" and vs :: 'v and hp :: "nat \<rightharpoonup> 's" and nh :: nat
  assumes "finite_expansion c F st" and "hp r = Some st" and "r < nh" and "0 <s n"
  shows
    "(\<forall>(e :: ('s, 'n, 'sol, 'v) engine) t res rest.
        t < length (pool e) \<and> pool e ! t = W_GetState \<and> statesMutex e = None \<and>
        globalStateStack e = res # rest \<longrightarrow>
          wstep c t e = Inr (Pop res, e\<lparr>globalStateStack := rest, statesMutex := Some t,
                                        pool := (pool e)[t := W_Locked res]\<rparr>) \<and>
          exec c [t, t] e =
            Inr ([(t, Pop res), (t, Inc)],
                 e\<lparr>globalStateStack := rest, activeWorkerCount := activeWorkerCount e + 1,
                   pool := (pool e)[t := W_While (Some res)]\<rparr>)) \<and>
     (\<forall>(e :: ('s, 'n, 'sol, 'v) engine) t u.
        t < length (pool e) \<and> pool e ! t = W_GetState \<and> statesMutex e = Some u \<longrightarrow>
          wstep c t e = Inr (Blocked, e)) \<and>
     (\<forall>(e :: ('s, 'n, 'sol, 'v) engine) t s s1 n1 n2.
        t < length (pool e) \<and> pool e ! t = W_Process s (P_Put s1 n1 n2) \<and> statesMutex e = None \<longrightarrow>
          (\<exists>e1. wstep c t e = Inr (Push s1, e1) \<and>
                globalStateStack e1 = s1 # globalStateStack e)) \<and>
     (\<forall>(e :: ('s, 'n, 'sol, 'v) engine) t.
        t < length (pool e) \<and> pool e ! t = W_GetState \<and> statesMutex e = None \<and>
        globalStateStack e = [] \<longrightarrow>
          wstep c t e = Inr (PopEmpty, e\<lparr>pool := (pool e)[t := W_While None]\<rparr>)) \<and>
     (\<forall>e2 sch tr e.
        started c r (ParallelMatchingEngine n store cp v vs hp nh :: ('s, 'n, 'sol, 'v) engine) e2 \<and>
        exec c sch e2 = Inr (tr, e) \<longrightarrow> distinct (pops tr))"
proof (intro conjI allI impI)
  fix e :: "('s, 'n, 'sol, 'v) engine" and t res rest
  assume a: "t < length (pool e) \<and> pool e ! t = W_GetState \<and> statesMutex e = None \<and>
        globalStateStack e = res # rest"
  then show 1: "wstep c t e = Inr (Pop res, e\<lparr>globalStateStack := rest, statesMutex := Some t,
                                        pool := (pool e)[t := W_Locked res]\<rparr>)"
    by (simp add: wstep_def)
  have "e\<lparr>globalStateStack := rest, activeWorkerCount := activeWorkerCount e + 1,
         pool := (pool e)[t := W_While (Some res)]\<rparr> =
        e\<lparr>globalStateStack := rest, statesMutex := None,
         activeWorkerCount := activeWorkerCount e + 1,
         pool := (pool e)[t := W_While (Some res)]\<rparr>"
    using a by simp
  with 1 a show "exec c [t, t] e =
            Inr ([(t, Pop res), (t, Inc)],
                 e\<lparr>globalStateStack := rest, activeWorkerCount := activeWorkerCount e + 1,
                   pool := (pool e)[t := W_While (Some res)]\<rparr>)"
    by (simp add: wstep_def)
next
  fix e :: "('s, 'n, 'sol, 'v) engine" and t u
  assume "t < length (pool e) \<and> pool e ! t = W_GetState \<and> statesMutex e = Some u"
  then show "wstep c t e = Inr (Blocked, e)"
    using list_update_id [of "pool e" t] by (simp add: wstep_def)
next
  fix e :: "('s, 'n, 'sol, 'v) engine" and t s s1 n1 n2
  assume "t < length (pool e) \<and> pool e ! t = W_Process s (P_Put s1 n1 n2) \<and> statesMutex e = None"
  then show "\<exists>e1. wstep c t e = Inr (Push s1, e1) \<and>
                globalStateStack e1 = s1 # globalStateStack e"
    by (simp add: wstep_def)
next
  fix e :: "('s, 'n, 'sol, 'v) engine" and t
  assume "t < length (pool e) \<and> pool e ! t = W_GetState \<and> statesMutex e = None \<and>
        globalStateStack e = []"
  then show "wstep c t e = Inr (PopEmpty, e\<lparr>pool := (pool e)[t := W_While None]\<rparr>)"
    by (simp add: wstep_def)
next
  fix e2 sch tr and e :: "('s, 'n, 'sol, 'v) engine"
  assume a: "started c r (ParallelMatchingEngine n store cp v vs hp nh) e2 \<and>
        exec c sch e2 = Inr (tr, e)"
  from a have "started c r (ParallelMatchingEngine n store cp v vs hp nh) e2" by simp
  then have "good c F e2"
    by (rule started_good(1) [where hp = hp and r = r, OF assms])
  from pops_distinct [OF this] a show "distinct (pops tr)" by blast
qed

lemma two_by_two_start:
  "observe two_by_two 0 (engine0 2) [] =
     Some ([], [W_GetState, W_GetState], None, [2, 1], 0, 0, [])"
  by code_simp

lemma two_by_two_run6:
  "observe two_by_two 0 (engine0 2) [0, 0, 1, 1, 0, 1] =
     Some ([(0, Pop 2), (0, Inc), (1, Pop 1), (1, Inc), (0, Tau), (1, Tau)],
       [W_Process 2 P_Entry, W_Process 1 P_Entry], None, [], 2, 0, [])"
  by code_simp

theorem GetState_pop_witness:
  "finite_expansion two_by_two 4 [] \<and> [0 \<mapsto> []] (0::nat) = Some ([]::nat list) \<and> (0::nat) < 1 \<and>
   0 <s (2 :: 16 word) \<and>
   (\<exists>e2 tr e'.
      started two_by_two 0 (engine0 2) e2 \<and>
      0 < length (pool e2) \<and> pool e2 ! 0 = W_GetState \<and> statesMutex e2 = None \<and>
      globalStateStack e2 = [2, 1] \<and>
      exec two_by_two [0, 0] e2 =
        Inr ([(0, Pop 2), (0, Inc)],
             e2\<lparr>globalStateStack := [1], activeWorkerCount := activeWorkerCount e2 + 1,
                pool := (pool e2)[0 := W_While (Some 2)]\<rparr>) \<and>
      exec two_by_two [0, 0, 1, 1, 0, 1] e2 = Inr (tr, e') \<and> pops tr = [2, 1] \<and>
      distinct (pops tr)) \<and>
   wstep two_by_two 1 ((engine0 2)\<lparr>pool := [W_Locked 1, W_GetState], statesMutex := Some 0\<rparr>) =
     Inr (Blocked, (engine0 2)\<lparr>pool := [W_Locked 1, W_GetState], statesMutex := Some 0\<rparr>) \<and>
   (\<exists>e1. wstep two_by_two 0 ((engine0 2)\<lparr>pool := [W_Process 0 (P_Put 1 0 0), W_GetState],
                                         globalStateStack := [7]\<rparr>) = Inr (Push 1, e1) \<and>
         globalStateStack e1 = [1, 7]) \<and>
   wstep two_by_two 1 ((engine0 2)\<lparr>pool := [W_GetState, W_GetState]\<rparr>) =
     Inr (PopEmpty, (engine0 2)\<lparr>pool := [W_GetState, W_While None]\<rparr>)"
proof -
  have h: "[0 \<mapsto> []] (0::nat) = Some ([]::nat list)" "(0::nat) < 1" by simp_all
  note T = GetState_pop [where hp = "[0 \<mapsto> []]" and r = 0 and nh = 1
      and store = True and cp = "- 1" and v = "Some stop_visitor" and vs = 0,
      OF two_by_two_finite h pos16_numeral(2), folded engine0_def]
  from two_by_two_start obtain e2 where
    e2: "started two_by_two 0 (engine0 2) e2" "pool e2 = [W_GetState, W_GetState]"
      "statesMutex e2 = None" "globalStateStack e2 = [2, 1]"
    unfolding observe_Some by auto
  from two_by_two_run6 obtain e2' tr e' where
    r: "started two_by_two 0 (engine0 2) e2'" "exec two_by_two [0, 0, 1, 1, 0, 1] e2' = Inr (tr, e')"
      "tr = [(0, Pop 2), (0, Inc), (1, Pop 1), (1, Inc), (0, Tau), (1, Tau)]"
    unfolding observe_Some by auto
  from e2(1) r(1) have eq: "e2' = e2" by (simp add: started_iff)
  have p: "pops tr = [2, 1]" by (simp add: r(3))
  from T e2(1) r(2) eq have d: "distinct (pops tr)" by blast
  have x: "exec two_by_two [0, 0] e2 =
        Inr ([(0, Pop 2), (0, Inc)],
             e2\<lparr>globalStateStack := [1], activeWorkerCount := activeWorkerCount e2 + 1,
                pool := (pool e2)[0 := W_While (Some 2)]\<rparr>)"
    using T [THEN conjunct1, rule_format, where e = e2 and t = 0 and res = 2 and rest = "[1]",
        THEN conjunct2] e2
    by simp
  have b: "wstep two_by_two 1 ((engine0 2)\<lparr>pool := [W_Locked 1, W_GetState], statesMutex := Some 0\<rparr>) =
     Inr (Blocked, (engine0 2)\<lparr>pool := [W_Locked 1, W_GetState], statesMutex := Some 0\<rparr>)"
    using T [THEN conjunct2, THEN conjunct1, rule_format, where t = 1 and u = 0 and
        e = "(engine0 2)\<lparr>pool := [W_Locked 1, W_GetState], statesMutex := Some 0\<rparr>"]
    by (simp add: engine0_def ParallelMatchingEngine_def)
  have q: "\<exists>e1. wstep two_by_two 0 ((engine0 2)\<lparr>pool := [W_Process 0 (P_Put 1 0 0), W_GetState],
                                         globalStateStack := [7]\<rparr>) = Inr (Push 1, e1) \<and>
         globalStateStack e1 = [1, 7]"
    using T [THEN conjunct2, THEN conjunct2, THEN conjunct1, rule_format,
        where t = 0 and s = 0 and ?s1.0 = 1 and ?n1.0 = 0 and ?n2.0 = 0 and
        e = "(engine0 2)\<lparr>pool := [W_Process 0 (P_Put 1 0 0), W_GetState],
                                         globalStateStack := [7]\<rparr>"]
    by (simp add: engine0_def ParallelMatchingEngine_def)
  have m: "wstep two_by_two 1 ((engine0 2)\<lparr>pool := [W_GetState, W_GetState]\<rparr>) =
     Inr (PopEmpty, (engine0 2)\<lparr>pool := [W_GetState, W_While None]\<rparr>)"
    using T [THEN conjunct2, THEN conjunct2, THEN conjunct2, THEN conjunct1, rule_format,
        where t = 1 and e = "(engine0 2)\<lparr>pool := [W_GetState, W_GetState]\<rparr>"]
    by (simp add: engine0_def ParallelMatchingEngine_def)
  from e2 r(2) eq p d x have "\<exists>e2 tr e'.
      started two_by_two 0 (engine0 2) e2 \<and>
      0 < length (pool e2) \<and> pool e2 ! 0 = W_GetState \<and> statesMutex e2 = None \<and>
      globalStateStack e2 = [2, 1] \<and>
      exec two_by_two [0, 0] e2 =
        Inr ([(0, Pop 2), (0, Inc)],
             e2\<lparr>globalStateStack := [1], activeWorkerCount := activeWorkerCount e2 + 1,
                pool := (pool e2)[0 := W_While (Some 2)]\<rparr>) \<and>
      exec two_by_two [0, 0, 1, 1, 0, 1] e2 = Inr (tr, e') \<and> pops tr = [2, 1] \<and>
      distinct (pops tr)"
    by (intro exI [of _ e2] exI [of _ tr] exI [of _ e']) (simp del: exec.simps)
  with two_by_two_finite h pos16_numeral(2) b q m show ?thesis
    by (simp only: simp_thms)
qed

lemma two_by_two_goals: "goal_count two_by_two 4 [] = 2"
  by code_simp

text \<open>
  Claim C9. When \<^verbatim>\<open>ProcessState\<close> has returned \<open>b\<close> to the worker loop, the worker
  destroys the state, gives its credit back and calls \<^verbatim>\<open>GetState\<close> again, and the
  engine it leaves does not depend on \<open>b\<close>. So the search runs to its end whatever the
  visitor answers: with any visitor, on a root with a finite expansion tree and under a
  fair schedule, \<^verbatim>\<open>FindAllMatchings\<close> returns with every goal of the tree counted (and
  stored, when solutions are stored), an empty frontier and all workers out of their loop.
\<close>

theorem visitor_result_unused:
  fixes c :: "('s, 'n, 'sol) VFState" and n cp :: "16 word" and store :: bool
    and hp :: "nat \<rightharpoonup> 's" and nh :: nat
  assumes "finite_expansion c F st" and "hp r = Some st" and "r < nh" and "0 <s n"
    and "fair (unat n) sched"
  shows
    "(\<forall>(e :: ('s, 'n, 'sol, 'v) engine) t s b st1.
        t < length (pool e) \<and> pool e ! t = W_Process s (P_Return b) \<and> heap e s = Some st1 \<longrightarrow>
          exec c [t, t, t] e =
            Inr ([(t, Return s b), (t, Delete s), (t, Dec s)],
                 e\<lparr>heap := (heap e)(s := None), activeWorkerCount := activeWorkerCount e - 1,
                   pool := (pool e)[t := W_GetState]\<rparr>)) \<and>
     (\<forall>(v :: ('v \<Rightarrow> 's \<Rightarrow> bool \<times> 'v) option) vs.
        \<exists>e'. FindAllMatchings c sched r
               (ParallelMatchingEngine n store cp v vs hp nh :: ('s, 'n, 'sol, 'v) engine) =
               Some (Inr (True, e')) \<and>
             solCount e' = of_nat (goal_count c F st) \<and>
             (store \<longrightarrow> length (solutions e') = goal_count c F st) \<and>
             pool e' = replicate (unat n) W_Exit \<and> globalStateStack e' = [])"
proof (intro conjI allI impI)
  fix e :: "('s, 'n, 'sol, 'v) engine" and t s b st1
  assume "t < length (pool e) \<and> pool e ! t = W_Process s (P_Return b) \<and> heap e s = Some st1"
  then show "exec c [t, t, t] e =
            Inr ([(t, Return s b), (t, Delete s), (t, Dec s)],
                 e\<lparr>heap := (heap e)(s := None), activeWorkerCount := activeWorkerCount e - 1,
                   pool := (pool e)[t := W_GetState]\<rparr>)"
    by (simp add: wstep_def)
next
  fix v :: "('v \<Rightarrow> 's \<Rightarrow> bool \<times> 'v) option" and vs :: 'v
  from engine_returns [where hp = hp and r = r and store = store and cp = cp and v = v
      and vs = vs, OF assms]
  obtain e' where f: "FindAllMatchings c sched r
               (ParallelMatchingEngine n store cp v vs hp nh :: ('s, 'n, 'sol, 'v) engine) =
               Some (Inr (True, e'))"
    by blast
  note R = engine_result [where hp = hp and r = r and store = store and cp = cp and v = v
      and vs = vs, OF assms(1-4) f]
  from f R(2,3,4,7) show "\<exists>e'. FindAllMatchings c sched r
               (ParallelMatchingEngine n store cp v vs hp nh :: ('s, 'n, 'sol, 'v) engine) =
               Some (Inr (True, e')) \<and>
             solCount e' = of_nat (goal_count c F st) \<and>
             (store \<longrightarrow> length (solutions e') = goal_count c F st) \<and>
             pool e' = replicate (unat n) W_Exit \<and> globalStateStack e' = []"
    by blast
qed

theorem visitor_result_unused_witness:
  "finite_expansion two_by_two 4 [] \<and> [0 \<mapsto> []] (0::nat) = Some ([]::nat list) \<and> (0::nat) < 1 \<and>
   0 <s (2 :: 16 word) \<and> fair (unat (2 :: 16 word)) (\<lambda>k. k mod 2) \<and>
   (\<forall>b. exec two_by_two [0, 0, 0]
          ((engine0 2)\<lparr>pool := [W_Process 0 (P_Return b), W_GetState], activeWorkerCount := 1\<rparr>) =
        Inr ([(0, Return 0 b), (0, Delete 0), (0, Dec 0)],
             (engine0 2)\<lparr>heap := Map.empty, activeWorkerCount := 0,
               pool := [W_GetState, W_GetState]\<rparr>)) \<and>
   (\<exists>e1 e2.
      FindAllMatchings two_by_two (\<lambda>k. k mod 2) 0
        (ParallelMatchingEngine 2 True (- 1) (Some stop_visitor) 0 [0 \<mapsto> []] 1) =
        Some (Inr (True, e1)) \<and>
      FindAllMatchings two_by_two (\<lambda>k. k mod 2) 0
        (ParallelMatchingEngine 2 True (- 1) (Some go_visitor) 0 [0 \<mapsto> []] 1) =
        Some (Inr (True, e2)) \<and>
      solCount e1 = 2 \<and> solCount e2 = 2 \<and> length (solutions e1) = 2 \<and>
      length (solutions e2) = 2)"
proof -
  have f2: "fair (unat (2 :: 16 word)) (\<lambda>k. k mod 2)"
    using fair_round_robin [of 2] by simp
  have h: "[0 \<mapsto> []] (0::nat) = Some ([]::nat list)" "(0::nat) < 1" by simp_all
  note T = visitor_result_unused [where hp = "[0 \<mapsto> []]" and r = 0 and nh = 1
      and store = True and cp = "- 1",
      OF two_by_two_finite h pos16_numeral(2) f2, unfolded two_by_two_goals]
  have a: "exec two_by_two [0, 0, 0]
          ((engine0 2)\<lparr>pool := [W_Process 0 (P_Return b), W_GetState], activeWorkerCount := 1\<rparr>) =
        Inr ([(0, Return 0 b), (0, Delete 0), (0, Dec 0)],
             (engine0 2)\<lparr>heap := Map.empty, activeWorkerCount := 0,
               pool := [W_GetState, W_GetState]\<rparr>)" for b
    using T [THEN conjunct1, rule_format, where t = 0 and s = 0 and b = b and ?st1.0 = "[]" and
        e = "(engine0 2)\<lparr>pool := [W_Process 0 (P_Return b), W_GetState],
               activeWorkerCount := 1\<rparr>"]
    by (simp add: engine0_def ParallelMatchingEngine_def)
  from T [THEN conjunct2, rule_format, of "Some stop_visitor" 0]
  obtain e1 where e1: "FindAllMatchings two_by_two (\<lambda>k. k mod 2) 0
        (ParallelMatchingEngine 2 True (- 1) (Some stop_visitor) 0 [0 \<mapsto> []] 1) =
        Some (Inr (True, e1))" "solCount e1 = 2" "length (solutions e1) = 2"
    by auto
  from T [THEN conjunct2, rule_format, of "Some go_visitor" 0]
  obtain e2 where e2: "FindAllMatchings two_by_two (\<lambda>k. k mod 2) 0
        (ParallelMatchingEngine 2 True (- 1) (Some go_visitor) 0 [0 \<mapsto> []] 1) =
        Some (Inr (True, e2))" "solCount e2 = 2" "length (solutions e2) = 2"
    by auto
  from e1 e2 have "\<exists>e1 e2.
      FindAllMatchings two_by_two (\<lambda>k. k mod 2) 0
        (ParallelMatchingEngine 2 True (- 1) (Some stop_visitor) 0 [0 \<mapsto> []] 1) =
        Some (Inr (True, e1)) \<and>
      FindAllMatchings two_by_two (\<lambda>k. k mod 2) 0
        (ParallelMatchingEngine 2 True (- 1) (Some go_visitor) 0 [0 \<mapsto> []] 1) =
        Some (Inr (True, e2)) \<and>
      solCount e1 = 2 \<and> solCount e2 = 2 \<and> length (solutions e1) = 2 \<and>
      length (solutions e2) = 2"
    by blast
  with two_by_two_finite h pos16_numeral(2) f2 a show ?thesis
    by (simp only: simp_thms)
qed












lemma own_simps [simp]:
  "own [] t = []"
  "own (tr @ [(u, a)]) t = (if u = t then own tr t @ [a] else own tr t)"
  "own (xs @ ys) t = own xs t @ own ys t"
  "own ((u, a) # ys) t = (if u = t then a # own ys t else own ys t)"
  by (simp_all add: own_def)

lemma own_mem: "a \<in> set (own tr t) \<longleftrightarrow> (t, a) \<in> set tr"
  by (induction tr) (auto simp: own_def)

lemma snoc_eq_split:
  assumes "acts @ [a] = xs @ y # ys"
  shows "(ys = [] \<and> xs = acts \<and> y = a) \<or> (\<exists>ys'. ys = ys' @ [a] \<and> acts = xs @ y # ys')"
  using assms by (cases ys rule: rev_cases) auto

lemma local_ok_step:
  assumes "wstep_pc c t pc e = Inr (a, pc', e')" and "local_ok (storeSolutions e) acts pc"
  shows "local_ok (storeSolutions e) (acts @ [a]) pc'"
  using assms
proof (cases rule: wstep_pc_cases)
  case (Alloc s st n1 n2 m1 m2)
  with assms(2) show ?thesis by (simp add: local_ok_def; blast)
next
  case (Put s s1 n1 n2)
  with assms(2) show ?thesis by (simp add: local_ok_def; blast)
qed (auto simp: local_ok_def)

lemma step_Dec:
  assumes "wstep_pc c t pc e = Inr (Dec h, pc', e')"
  shows "pc = W_Dec h"
  using assms by (cases rule: wstep_pc_cases) simp_all

lemma step_Visit:
  assumes "wstep_pc c t pc e = Inr (Visit s b, pc', e')"
  shows "pc = W_Process s P_Visit"
  using assms by (cases rule: wstep_pc_cases) simp_all

lemma step_store_flag:
  assumes "wstep_pc c t pc e = Inr (a, pc', e')"
  shows "storeSolutions e' = storeSolutions e"
  using assms by (cases rule: wstep_pc_cases) simp_all

lemma dec_ordered_step:
  assumes s: "wstep_pc c t pc e = Inr (a, pc', e')" and l: "local_ok store acts pc"
    and d: "dec_ordered acts"
  shows "dec_ordered (acts @ [a])"
  unfolding dec_ordered_def
proof (intro allI impI)
  fix xs h ys assume eq: "acts @ [a] = xs @ Dec h # ys"
  from snoc_eq_split [OF eq]
  show "Pop h \<in> set xs \<and> (\<exists>b. Return h b \<in> set xs) \<and> Delete h \<in> set xs \<and>
        (\<forall>s1. Alloc h s1 \<in> set xs \<longrightarrow> Push s1 \<in> set xs)"
  proof
    assume a: "ys = [] \<and> xs = acts \<and> Dec h = a"
    with s have pc: "pc = W_Dec h" by (auto dest: step_Dec)
    from l have "Pop h \<in> set acts" "\<exists>b. Return h b \<in> set acts" "Delete h \<in> set acts"
      "\<forall>s1. Alloc h s1 \<in> set acts \<longrightarrow> Push s1 \<in> set acts"
      unfolding local_ok_def pc by simp_all
    with a show ?thesis by simp
  next
    assume "\<exists>ys'. ys = ys' @ [a] \<and> acts = xs @ Dec h # ys'"
    then obtain ys' where "acts = xs @ Dec h # ys'" by blast
    from d [unfolded dec_ordered_def, rule_format, OF this] show ?thesis .
  qed
qed

lemma visit_ordered_step:
  assumes s: "wstep_pc c t pc e = Inr (a, pc', e')" and l: "local_ok store acts pc"
    and d: "visit_ordered store acts"
  shows "visit_ordered store (acts @ [a])"
  unfolding visit_ordered_def
proof (intro allI impI)
  fix xs h b ys assume eq: "acts @ [a] = xs @ Visit h b # ys"
  from snoc_eq_split [OF eq]
  show "Count h \<in> set xs \<and> (store \<longrightarrow> (\<exists>sol. Store h sol \<in> set xs))"
  proof
    assume a: "ys = [] \<and> xs = acts \<and> Visit h b = a"
    with s have pc: "pc = W_Process h P_Visit" by (auto dest: step_Visit)
    from l have "Count h \<in> set acts" "store \<longrightarrow> (\<exists>sol. Store h sol \<in> set acts)"
      unfolding local_ok_def pc by simp_all
    with a show ?thesis by simp
  next
    assume "\<exists>ys'. ys = ys' @ [a] \<and> acts = xs @ Visit h b # ys'"
    then obtain ys' where "acts = xs @ Visit h b # ys'" by blast
    from d [unfolded visit_ordered_def, rule_format, OF this] show ?thesis .
  qed
qed

lemma history_step:
  assumes h: "history store tr e" and s: "wstep c t e = Inr (a, e')"
  shows "history store (tr @ [(t, a)]) e'"
proof -
  from h have st: "storeSolutions e = store" and
    l: "\<And>u. u < length (pool e) \<Longrightarrow> local_ok store (own tr u) (pool e ! u)" and
    d: "\<And>u. u < length (pool e) \<Longrightarrow> dec_ordered (own tr u)" and
    v: "\<And>u. u < length (pool e) \<Longrightarrow> visit_ordered store (own tr u)" and
    i: "\<And>x. x \<in> set tr \<Longrightarrow> snd x = Idle \<or> fst x < length (pool e)"
    by (simp_all add: history_def)
  from s show ?thesis
  proof (cases rule: wstep_cases)
    case 1
    show ?thesis
      unfolding history_def
    proof (intro conjI ballI allI impI)
      show "storeSolutions e' = store" using 1 st by simp
    next
      fix x assume "x \<in> set (tr @ [(t, a)])"
      then have "x \<in> set tr \<or> x = (t, a)" by auto
      then show "snd x = Idle \<or> fst x < length (pool e')"
        using i [of x] 1 by auto
    next
      fix u assume "u < length (pool e')"
      with 1 have u: "u < length (pool e)" and ne: "t \<noteq> u" by auto
      from l [OF u] 1 ne show "local_ok store (own (tr @ [(t, a)]) u) (pool e' ! u)" by simp
      from d [OF u] ne show "dec_ordered (own (tr @ [(t, a)]) u)" by simp
      from v [OF u] ne show "visit_ordered store (own (tr @ [(t, a)]) u)" by simp
    qed
  next
    case (2 pc' e1)
    from step_pool_same [OF 2(2)] 2(3) have p: "pool e' = (pool e)[t := pc']" by simp
    from step_store_flag [OF 2(2)] 2(3) st have ss: "storeSolutions e' = store" by simp
    have 1: "local_ok store (own tr t @ [a]) pc'"
      using local_ok_step [OF 2(2), of "own tr t"] l [OF 2(1)] st by simp
    have 3: "dec_ordered (own tr t @ [a])"
      by (rule dec_ordered_step [OF 2(2) l [OF 2(1)] d [OF 2(1)]])
    have 4: "visit_ordered store (own tr t @ [a])"
      by (rule visit_ordered_step [OF 2(2) l [OF 2(1)] v [OF 2(1)]])
    show ?thesis
      unfolding history_def
    proof (intro conjI ballI allI impI)
      show "storeSolutions e' = store" by (rule ss)
    next
      fix x assume "x \<in> set (tr @ [(t, a)])"
      then have "x \<in> set tr \<or> x = (t, a)" by auto
      then show "snd x = Idle \<or> fst x < length (pool e')"
        using i [of x] 2(1) p by auto
    next
      fix u assume "u < length (pool e')"
      with p have u: "u < length (pool e)" by simp
      show "local_ok store (own (tr @ [(t, a)]) u) (pool e' ! u)"
      proof (cases "t = u")
        case True
        with 1 p u show ?thesis by simp
      next
        case False
        with l [OF u] p u show ?thesis by simp
      qed
      show "dec_ordered (own (tr @ [(t, a)]) u)"
        using 3 d [OF u] by (cases "t = u") simp_all
      show "visit_ordered store (own (tr @ [(t, a)]) u)"
        using 4 v [OF u] by (cases "t = u") simp_all
    qed
  qed
qed

lemma history_start:
  assumes "pool e = replicate N W_GetState"
  shows "history (storeSolutions e) [] e"
  using assms by (simp add: history_def local_ok_def dec_ordered_def visit_ordered_def)

lemma history_run:
  assumes g: "good c F e0" and p: "pool e0 = replicate N W_GetState"
    and r: "exec c sch e0 = Inr (tr, e)"
  shows "history (storeSolutions e0) tr e" and "good c F e"
proof -
  have "history (storeSolutions e0) tr e \<and> good c F e"
    by (rule exec_invariant [where P = "history (storeSolutions e0)", OF g history_start [OF p] _ r])
      (rule history_step)
  then show "history (storeSolutions e0) tr e" and "good c F e" by simp_all
qed

lemma started_pool:
  fixes c :: "('s, 'n, 'sol) VFState" and n cp :: "16 word" and store :: bool
    and v :: "('v \<Rightarrow> 's \<Rightarrow> bool \<times> 'v) option" and vs :: 'v and hp :: "nat \<rightharpoonup> 's" and nh :: nat
  assumes fe: "finite_expansion c F st" and hp: "hp r = Some st" and r: "r < nh"
    and n: "0 <s n"
    and st: "started c r (ParallelMatchingEngine n store cp v vs hp nh :: ('s, 'n, 'sol, 'v) engine) e2"
  shows "pool e2 = replicate (unat n) W_GetState"
proof -
  let ?e0 = "ParallelMatchingEngine n store cp v vs hp nh :: ('s, 'n, 'sol, 'v) engine"
  have e0: "heap ?e0 r = Some st" "r < next_handle ?e0"
    "pool ?e0 = replicate (unat n) W_NoThread" "numThreads ?e0 = n"
    using hp r by (simp_all add: ParallelMatchingEngine_def)
  from st obtain b acts e1 where
    ps: "ProcessState c r ?e0 = Some (Inr (b, acts, e1))" and sp: "StartPool e1 = Inr e2"
    by (auto simp: started_def)
  from root_processed [OF fe e0(1,2)] ps e0(3,4)
  have p1: "pool e1 = replicate (unat n) W_NoThread" "numThreads e1 = n" by auto
  from StartPool_eq [OF p1 n] sp show ?thesis by auto
qed

lemma stored_snoc:
  "stored (tr @ [(t, a)]) = stored tr @ (case a of Store s sol \<Rightarrow> [sol] | _ \<Rightarrow> [])"
  by (induction tr rule: stored.induct) (auto split: action.splits)

lemma counted_snoc: "counted (tr @ [(t, a)]) = counted tr + counts a"
  by (simp add: counted_def)

lemma log_step_pc:
  assumes "wstep_pc c t pc e = Inr (a, pc', e')"
  shows "solutions e' = solutions e @ (case a of Store s sol \<Rightarrow> [sol] | _ \<Rightarrow> [])"
  using assms by (cases rule: wstep_pc_cases) simp_all

lemma log_step:
  assumes "wstep c t e = Inr (a, e')"
  shows "solutions e' = solutions e @ (case a of Store s sol \<Rightarrow> [sol] | _ \<Rightarrow> [])"
    and "solCount e' = solCount e + of_nat (counts a)"
proof -
  from assms show "solutions e' = solutions e @ (case a of Store s sol \<Rightarrow> [sol] | _ \<Rightarrow> [])"
    by (cases rule: wstep_cases) (simp_all add: log_step_pc)
  from assms show "solCount e' = solCount e + of_nat (counts a)"
    by (cases rule: wstep_cases) (simp_all add: count_step)
qed

lemma books_run:
  assumes "exec c sch e0 = Inr (tr, e)"
  shows "solCount e = solCount e0 + of_nat (counted tr) \<and> solutions e = solutions e0 @ stored tr"
  using assms
proof (induction sch arbitrary: tr e rule: rev_induct)
  case Nil
  then show ?case by (simp add: counted_def)
next
  case (snoc t sch)
  from snoc.prems obtain tr1 e1 a where
    r: "exec c sch e0 = Inr (tr1, e1)" and s: "wstep c t e1 = Inr (a, e)" and
    tr: "tr = tr1 @ [(t, a)]"
    by (auto simp: exec_snoc split: sum.splits)
  from snoc.IH [OF r] log_step [OF s] show ?case
    unfolding tr by (simp add: stored_snoc counted_snoc)
qed

lemma own_split:
  assumes "tr = xs @ (t, a) # ys"
  shows "own tr t = own xs t @ a # own ys t"
  using assms by simp

lemma history_visit:
  assumes h: "history store tr e" and eq: "tr = xs @ (t, Visit s b) # ys"
  shows "(t, Count s) \<in> set xs \<and> (store \<longrightarrow> (\<exists>sol. (t, Store s sol) \<in> set xs))"
proof -
  from eq have "(t, Visit s b) \<in> set tr" by simp
  with h have t: "t < length (pool e)" by (fastforce simp: history_def)
  with h have "visit_ordered store (own tr t)" by (simp add: history_def)
  from this [unfolded visit_ordered_def, rule_format, OF own_split [OF eq]]
  show ?thesis by (simp add: own_mem)
qed

lemma history_dec:
  assumes h: "history store tr e" and eq: "tr = xs @ (t, Dec k) # ys"
  shows "(t, Pop k) \<in> set xs \<and> (\<exists>b. (t, Return k b) \<in> set xs) \<and> (t, Delete k) \<in> set xs \<and>
        (\<forall>s1. (t, Alloc k s1) \<in> set xs \<longrightarrow> (t, Push s1) \<in> set xs)"
proof -
  from eq have "(t, Dec k) \<in> set tr" by simp
  with h have t: "t < length (pool e)" by (fastforce simp: history_def)
  with h have "dec_ordered (own tr t)" by (simp add: history_def)
  from this [unfolded dec_ordered_def, rule_format, OF own_split [OF eq]]
  show ?thesis by (simp add: own_mem)
qed

text \<open>
  Claim C10. A worker on a goal state first adds one to the counter of solutions, then
  (when solutions are stored) appends the solution to the log, and only then calls the
  visitor; the call of the visitor changes neither the counter nor the log, whatever it
  answers. \<^verbatim>\<open>ProcessState\<close> on the calling thread takes the same three steps in that
  order. So in every execution of the workers of an engine started on a root with a finite
  expansion tree, each call of the visitor on a state comes after the count of that
  state and, when solutions are stored, after its append to the log; and at every moment
  the counter is the number of counts made so far and the log holds the solutions
  appended so far, in their order: nothing that a visitor answers takes any of them back.
\<close>

theorem count_before_visit:
  fixes c :: "('s, 'n, 'sol) VFState" and n cp :: "16 word" and store :: bool
    and v :: "('v \<Rightarrow> 's \<Rightarrow> bool \<times> 'v) option" and vs :: 'v and hp :: "nat \<rightharpoonup> 's" and nh :: nat
  assumes "finite_expansion c F st" and "hp r = Some st" and "r < nh" and "0 <s n"
  shows
    "(\<forall>(e :: ('s, 'n, 'sol, 'v) engine) t s st1.
        t < length (pool e) \<and> pool e ! t = W_Process s P_Entry \<and> heap e s = Some st1 \<and>
        IsGoal c st1 \<longrightarrow>
          wstep c t e = Inr (Count s, e\<lparr>solCount := solCount e + 1,
                                         pool := (pool e)[t := W_Process s P_Store]\<rparr>)) \<and>
     (\<forall>(e :: ('s, 'n, 'sol, 'v) engine) t s st1.
        t < length (pool e) \<and> pool e ! t = W_Process s P_Store \<and> heap e s = Some st1 \<longrightarrow>
          wstep c t e =
            (if storeSolutions e
             then Inr (Store s (GetCoreSet c st1),
                       e\<lparr>solutions := solutions e @ [GetCoreSet c st1],
                         pool := (pool e)[t := W_Process s P_Visit]\<rparr>)
             else Inr (Tau, e\<lparr>pool := (pool e)[t := W_Process s P_Visit]\<rparr>))) \<and>
     (\<forall>(e :: ('s, 'n, 'sol, 'v) engine) t s st1 f.
        t < length (pool e) \<and> pool e ! t = W_Process s P_Visit \<and> heap e s = Some st1 \<and>
        visit e = Some f \<longrightarrow>
          wstep c t e =
            Inr (Visit s (fst (f (visit_state e) st1)),
                 e\<lparr>visit_state := snd (f (visit_state e) st1),
                   pool := (pool e)[t := W_Process s (P_Return (fst (f (visit_state e) st1)))]\<rparr>)) \<and>
     (\<forall>(e :: ('s, 'n, 'sol, 'v) engine) s st1.
        heap e s = Some st1 \<and> IsGoal c st1 \<longrightarrow>
          ProcessState c s e =
            Some (Inr
              ((case visit e of None \<Rightarrow> True | Some f \<Rightarrow> fst (f (visit_state e) st1)),
               [Count s,
                (if storeSolutions e then Store s (GetCoreSet c st1) else Tau),
                (case visit e of None \<Rightarrow> Tau | Some f \<Rightarrow> Visit s (fst (f (visit_state e) st1)))],
               e\<lparr>solCount := solCount e + 1,
                 solutions := (if storeSolutions e then solutions e @ [GetCoreSet c st1]
                               else solutions e),
                 visit_state := (case visit e of None \<Rightarrow> visit_state e
                                 | Some f \<Rightarrow> snd (f (visit_state e) st1))\<rparr>))) \<and>
     (\<forall>e2 sch tr e.
        started c r (ParallelMatchingEngine n store cp v vs hp nh :: ('s, 'n, 'sol, 'v) engine) e2 \<and>
        exec c sch e2 = Inr (tr, e) \<longrightarrow>
          (\<forall>xs t s b ys. tr = xs @ (t, Visit s b) # ys \<longrightarrow>
             (t, Count s) \<in> set xs \<and> (store \<longrightarrow> (\<exists>sol. (t, Store s sol) \<in> set xs))) \<and>
          solCount e = solCount e2 + of_nat (counted tr) \<and>
          solutions e = solutions e2 @ stored tr)"
proof (intro conjI allI impI)
  fix e :: "('s, 'n, 'sol, 'v) engine" and t s st1
  assume "t < length (pool e) \<and> pool e ! t = W_Process s P_Entry \<and> heap e s = Some st1 \<and>
        IsGoal c st1"
  then show "wstep c t e = Inr (Count s, e\<lparr>solCount := solCount e + 1,
                                         pool := (pool e)[t := W_Process s P_Store]\<rparr>)"
    by (simp add: wstep_def)
next
  fix e :: "('s, 'n, 'sol, 'v) engine" and t s st1
  assume "t < length (pool e) \<and> pool e ! t = W_Process s P_Store \<and> heap e s = Some st1"
  then show "wstep c t e =
            (if storeSolutions e
             then Inr (Store s (GetCoreSet c st1),
                       e\<lparr>solutions := solutions e @ [GetCoreSet c st1],
                         pool := (pool e)[t := W_Process s P_Visit]\<rparr>)
             else Inr (Tau, e\<lparr>pool := (pool e)[t := W_Process s P_Visit]\<rparr>))"
    by (simp add: wstep_def)
next
  fix e :: "('s, 'n, 'sol, 'v) engine" and t s st1 f
  assume "t < length (pool e) \<and> pool e ! t = W_Process s P_Visit \<and> heap e s = Some st1 \<and>
        visit e = Some f"
  then show "wstep c t e =
            Inr (Visit s (fst (f (visit_state e) st1)),
                 e\<lparr>visit_state := snd (f (visit_state e) st1),
                   pool := (pool e)[t := W_Process s (P_Return (fst (f (visit_state e) st1)))]\<rparr>)"
    by (simp add: wstep_def)
next
  fix e :: "('s, 'n, 'sol, 'v) engine" and s st1
  assume "heap e s = Some st1 \<and> IsGoal c st1"
  then show "ProcessState c s e =
            Some (Inr
              ((case visit e of None \<Rightarrow> True | Some f \<Rightarrow> fst (f (visit_state e) st1)),
               [Count s,
                (if storeSolutions e then Store s (GetCoreSet c st1) else Tau),
                (case visit e of None \<Rightarrow> Tau | Some f \<Rightarrow> Visit s (fst (f (visit_state e) st1)))],
               e\<lparr>solCount := solCount e + 1,
                 solutions := (if storeSolutions e then solutions e @ [GetCoreSet c st1]
                               else solutions e),
                 visit_state := (case visit e of None \<Rightarrow> visit_state e
                                 | Some f \<Rightarrow> snd (f (visit_state e) st1))\<rparr>))"
    using ProcessState_goal_run [of e s st1 c] by simp
next
  fix e2 sch tr and e :: "('s, 'n, 'sol, 'v) engine" and xs t s b ys
  assume a: "started c r (ParallelMatchingEngine n store cp v vs hp nh) e2 \<and>
        exec c sch e2 = Inr (tr, e)" and eq: "tr = xs @ (t, Visit s b) # ys"
  then have st: "started c r (ParallelMatchingEngine n store cp v vs hp nh) e2"
    and ex: "exec c sch e2 = Inr (tr, e)" by simp_all
  have g: "good c F e2" and s2: "storeSolutions e2 = store"
    by (rule started_good(1,3) [where hp = hp and r = r, OF assms st])+
  have p: "pool e2 = replicate (unat n) W_GetState"
    by (rule started_pool [where hp = hp and r = r, OF assms st])
  from history_run(1) [OF g p ex] s2 have h: "history store tr e" by simp
  from history_visit [OF h eq] show "(t, Count s) \<in> set xs" by simp
  assume store
  with history_visit [OF h eq] show "\<exists>sol. (t, Store s sol) \<in> set xs" by simp
next
  fix e2 sch tr and e :: "('s, 'n, 'sol, 'v) engine"
  assume a: "started c r (ParallelMatchingEngine n store cp v vs hp nh) e2 \<and>
        exec c sch e2 = Inr (tr, e)"
  then have ex: "exec c sch e2 = Inr (tr, e)" by simp
  from books_run [OF ex] show "solCount e = solCount e2 + of_nat (counted tr)"
    and "solutions e = solutions e2 @ stored tr" by simp_all
qed

lemma two_by_two_start1:
  "observe two_by_two 0 (engine0 1) [] = Some ([], [W_GetState], None, [2, 1], 0, 0, [])"
  by code_simp

lemma two_by_two_run17:
  "observe two_by_two 0 (engine0 1) (replicate 17 0) =
     Some ([(0, Pop 2), (0, Inc), (0, Tau), (0, Tau), (0, Alloc 2 3), (0, Push 3),
            (0, Tau), (0, Tau), (0, Return 2 False), (0, Delete 2), (0, Dec 2),
            (0, Pop 3), (0, Inc), (0, Tau), (0, Count 3), (0, Store 3 [1, 0]),
            (0, Visit 3 False)],
           [W_Process 3 (P_Return False)], None, [1], 1, 1, [[1, 0]])"
  by code_simp

theorem count_before_visit_witness:
  "finite_expansion two_by_two 4 [] \<and> [0 \<mapsto> []] (0::nat) = Some ([]::nat list) \<and> (0::nat) < 1 \<and>
   0 <s (1 :: 16 word) \<and>
   (\<exists>e2 tr e.
      started two_by_two 0 (engine0 1) e2 \<and>
      exec two_by_two (replicate 17 0) e2 = Inr (tr, e) \<and>
      tr = [(0, Pop 2), (0, Inc), (0, Tau), (0, Tau), (0, Alloc 2 3), (0, Push 3),
            (0, Tau), (0, Tau), (0, Return 2 False), (0, Delete 2), (0, Dec 2),
            (0, Pop 3), (0, Inc), (0, Tau), (0, Count 3), (0, Store 3 [1, 0])] @
           (0, Visit 3 False) # [] \<and>
      solCount e2 = 0 \<and> counted tr = 1 \<and> solCount e = 1 \<and>
      solutions e2 = [] \<and> stored tr = [[1, 0]] \<and> solutions e = [[1, 0]] \<and>
      (0, Count 3) \<in> set (take 16 tr) \<and> (0, Store 3 [1, 0]) \<in> set (take 16 tr)) \<and>
   wstep two_by_two 0
     ((engine0 1)\<lparr>heap := [3 \<mapsto> [1, 0]], pool := [W_Process 3 P_Visit], solCount := 1,
                  solutions := [[1, 0]]\<rparr>) =
     Inr (Visit 3 False,
          (engine0 1)\<lparr>heap := [3 \<mapsto> [1, 0]], pool := [W_Process 3 (P_Return False)],
                      solCount := 1, solutions := [[1, 0]], visit_state := 1\<rparr>)"
proof -
  have h: "[0 \<mapsto> []] (0::nat) = Some ([]::nat list)" "(0::nat) < 1" by simp_all
  note T = count_before_visit [where hp = "[0 \<mapsto> []]" and r = 0 and nh = 1
      and store = True and cp = "- 1" and v = "Some stop_visitor" and vs = 0,
      OF two_by_two_finite h pos16_numeral(1), folded engine0_def]
  let ?tr = "[(0, Pop 2), (0, Inc), (0, Tau), (0, Tau), (0, Alloc 2 3), (0, Push 3),
            (0, Tau), (0, Tau), (0, Return 2 False), (0, Delete 2), (0, Dec 2),
            (0, Pop 3), (0, Inc), (0, Tau), (0, Count 3), (0, Store 3 [1, 0])] @
           (0::nat, Visit 3 False :: nat list action) # []"
  from two_by_two_run17 obtain e2 e where
    r: "started two_by_two 0 (engine0 1) e2" "exec two_by_two (replicate 17 0) e2 = Inr (?tr, e)"
    unfolding observe_Some by auto
  from two_by_two_start1 obtain e2' where
    r0: "started two_by_two 0 (engine0 1) e2'" "solCount e2' = 0" "solutions e2' = []"
    unfolding observe_Some by auto
  from r(1) r0(1) have eq: "e2' = e2" by (simp add: started_iff)
  note L = T [THEN conjunct2, THEN conjunct2, THEN conjunct2, THEN conjunct2, rule_format,
      OF conjI [OF r]]
  from L [THEN conjunct1, rule_format, of _ 0 3 False "[]", OF refl]
  have o: "(0, Count 3) \<in> set (take 16 ?tr) \<and> (0, Store 3 [1, 0]) \<in> set (take 16 ?tr)"
    by simp
  have ct: "counted ?tr = 1" "stored ?tr = [[1, 0]]" by (simp_all add: counted_def)
  from L [THEN conjunct2] r0 eq ct have b: "solCount e = 1" "solutions e = [[1, 0]]"
    by simp_all
  have w: "wstep two_by_two 0
     ((engine0 1)\<lparr>heap := [3 \<mapsto> [1, 0]], pool := [W_Process 3 P_Visit], solCount := 1,
                  solutions := [[1, 0]]\<rparr>) =
     Inr (Visit 3 False,
          (engine0 1)\<lparr>heap := [3 \<mapsto> [1, 0]], pool := [W_Process 3 (P_Return False)],
                      solCount := 1, solutions := [[1, 0]], visit_state := 1\<rparr>)"
    using T [THEN conjunct2, THEN conjunct2, THEN conjunct1, rule_format,
        where t = 0 and s = 3 and ?st1.0 = "[1, 0]" and f = stop_visitor and
        e = "(engine0 1)\<lparr>heap := [3 \<mapsto> [1, 0]], pool := [W_Process 3 P_Visit], solCount := 1,
                  solutions := [[1, 0]]\<rparr>"]
    by (simp add: engine0_def ParallelMatchingEngine_def stop_visitor_def)
  from r r0(2,3) eq ct b o have "\<exists>e2 tr e.
      started two_by_two 0 (engine0 1) e2 \<and>
      exec two_by_two (replicate 17 0) e2 = Inr (tr, e) \<and>
      tr = ?tr \<and>
      solCount e2 = 0 \<and> counted tr = 1 \<and> solCount e = 1 \<and>
      solutions e2 = [] \<and> stored tr = [[1, 0]] \<and> solutions e = [[1, 0]] \<and>
      (0, Count 3) \<in> set (take 16 tr) \<and> (0, Store 3 [1, 0]) \<in> set (take 16 tr)"
    by (intro exI [of _ e2] exI [of _ ?tr] exI [of _ e]) (simp only: simp_thms)
  with two_by_two_finite h pos16_numeral(1) w show ?thesis by (simp only: simp_thms)
qed

end
